theory Spec2Isabelle
  imports Complex_Main "HOL-Library.Char_ord" "HOL-Library.List_Lexorder" "HOL-Library.Multiset"
begin

section \<open>Errors\<close>

text \<open>
  Exceptions of the Python program are values. \<open>HTTPException\<close> carries the status code
  and the detail string; \<open>LibraryError\<close> stands for any exception (a subclass of
  \<open>Exception\<close>) raised inside a library call.
\<close>

datatype error =
    ValueError
  | IndexError
  | AttributeError
  | LibraryError
  | HTTPException nat string

definition bind_err :: "error + 'a \<Rightarrow> ('a \<Rightarrow> error + 'b) \<Rightarrow> error + 'b" where
  "bind_err m f = (case m of Inl e \<Rightarrow> Inl e | Inr v \<Rightarrow> f v)"

text \<open>\<open>xs[i]\<close> for a non-negative index: raises IndexError out of range.\<close>

definition subscript :: "'a list \<Rightarrow> nat \<Rightarrow> error + 'a" where
  "subscript xs i = (if i < length xs then Inr (xs ! i) else Inl IndexError)"

text \<open>
  \<open>try: x = e  except: pass\<close>: when the evaluation of \<open>e\<close> raises, the variable keeps
  the value it had.
\<close>

definition try_assign :: "error + 'a \<Rightarrow> 'a option \<Rightarrow> 'a option" where
  "try_assign r cur = (case r of Inr v \<Rightarrow> Some v | Inl e \<Rightarrow> cur)"

section \<open>Regular expressions with backtracking priority\<close>

text \<open>
  The text is a list of characters, one \<open>char\<close> per code point, for code points 0 to 255.
  In that range \<open>\d\<close> is the ten ASCII digits and \<open>\s\<close> is the white space of Python's
  \<open>str\<close> patterns: U+0009 to U+000D, U+001C to U+0020, U+0085 and U+00A0.
\<close>

definition is_digit :: "char \<Rightarrow> bool" where
  "is_digit c = (c \<in> set ''0123456789'')"

definition is_space :: "char \<Rightarrow> bool" where
  "is_space c = (c \<in> set [CHR 0x09, CHR 0x0A, CHR 0x0B, CHR 0x0C, CHR 0x0D,
                           CHR 0x1C, CHR 0x1D, CHR 0x1E, CHR 0x1F, CHR 0x20,
                           CHR 0x85, CHR 0xA0])"

definition lower_ascii :: "char \<Rightarrow> char" where
  "lower_ascii c =
     (case map_of (zip ''ABCDEFGHIJKLMNOPQRSTUVWXYZ'' ''abcdefghijklmnopqrstuvwxyz'') c of
        Some l \<Rightarrow> l
      | None \<Rightarrow> c)"

text \<open>
  The fragment of \<open>re\<close> syntax that the three patterns of \<open>_parse_numbers\<close> use:
  a character class, sequence, alternation, the greedy \<open>?\<close> and the greedy \<open>*\<close> of a
  character class. \<open>x{1,2}\<close> is \<open>x x?\<close>.
\<close>

datatype rx =
    Eps
  | Sym "char \<Rightarrow> bool"
  | Seq rx rx
  | Alt rx rx
  | Opt rx
  | Star "char \<Rightarrow> bool"

text \<open>
  \<open>ms r s\<close> lists the remainders of \<open>s\<close> after each way \<open>r\<close> matches a prefix of \<open>s\<close>,
  in the order in which a backtracking matcher tries them: the left alternative first,
  the greedy choice (one more repetition, the optional part present) first.
\<close>

fun ms :: "rx \<Rightarrow> string \<Rightarrow> string list" where
  "ms Eps s = [s]"
| "ms (Sym p) [] = []"
| "ms (Sym p) (c # cs) = (if p c then [cs] else [])"
| "ms (Seq a b) s = concat (map (ms b) (ms a s))"
| "ms (Alt a b) s = ms a s @ ms b s"
| "ms (Opt a) s = ms a s @ [s]"
| "ms (Star p) [] = [] # []"
| "ms (Star p) (c # cs) = (if p c then ms (Star p) cs else []) @ [c # cs]"

text \<open>A literal string under \<open>re.I\<close>: a letter matches in either case.\<close>

fun lit_i :: "string \<Rightarrow> rx" where
  "lit_i [] = Eps"
| "lit_i (c # cs) = Seq (Sym (\<lambda>x. lower_ascii x = lower_ascii c)) (lit_i cs)"

text \<open>
  A pattern \<open>pre(grp)post\<close> with one capturing group, tried at the start of \<open>s\<close>: the
  first success in backtracking order gives the text of the group and the remainder
  after the whole match.
\<close>

definition candidates :: "rx \<Rightarrow> rx \<Rightarrow> rx \<Rightarrow> string \<Rightarrow> (string \<times> string) list" where
  "candidates pre grp post s =
     concat (map (\<lambda>s1. concat (map (\<lambda>s2. map (\<lambda>s3. (take (length s1 - length s2) s1, s3))
                                            (ms post s2))
                                 (ms grp s1)))
                 (ms pre s))"

definition match_at :: "rx \<Rightarrow> rx \<Rightarrow> rx \<Rightarrow> string \<Rightarrow> (string \<times> string) option" where
  "match_at pre grp post s =
     (case candidates pre grp post s of [] \<Rightarrow> None | x # xs \<Rightarrow> Some x)"

text \<open>
  \<open>re.findall\<close> for a pattern with one group: the group of each match, the matches found
  left to right without overlap. After a match that consumed nothing the scan moves on
  by one character.
\<close>

fun findall :: "rx \<Rightarrow> rx \<Rightarrow> rx \<Rightarrow> string \<Rightarrow> string list" where
  "findall pre grp post [] =
     (case match_at pre grp post [] of None \<Rightarrow> [] | Some (g, rest) \<Rightarrow> [g])"
| "findall pre grp post (c # cs) =
     (case match_at pre grp post (c # cs) of
        None \<Rightarrow> findall pre grp post cs
      | Some (g, rest) \<Rightarrow>
          g # (if length rest < length (c # cs) then findall pre grp post rest
               else findall pre grp post cs))"

section \<open>The Number Parser\<close>

text \<open>\<open>text.replace(",", ".")\<close>\<close>

definition replace_comma :: "string \<Rightarrow> string" where
  "replace_comma text = map (\<lambda>c. if c = CHR '','' then CHR ''.'' else c) text"

text \<open>\<open>\d{1,2}\<close> and the numeric token \<open>-?\d{1,2}(?:\.\d{1,2})?\<close>.\<close>

definition digits12 :: rx where
  "digits12 = Seq (Sym is_digit) (Opt (Sym is_digit))"

definition unsigned_tok :: rx where
  "unsigned_tok = Seq digits12 (Opt (Seq (Sym (\<lambda>x. x = CHR ''.'')) digits12))"

definition signed_tok :: rx where
  "signed_tok = Seq (Opt (Sym (\<lambda>x. x = CHR ''-''))) unsigned_tok"

text \<open>\<open>(?:t|temp|temperatura)?\s*[:=]?\s*\<close> under \<open>re.I\<close>, the part before the group.\<close>

definition temp_pre :: rx where
  "temp_pre =
     Seq (Opt (Alt (lit_i ''t'') (Alt (lit_i ''temp'') (lit_i ''temperatura''))))
       (Seq (Star is_space)
         (Seq (Opt (Sym (\<lambda>x. x = CHR '':'' \<or> x = CHR ''=''))) (Star is_space)))"

text \<open>\<open>\s*%\<close>, the part after the group of the humidity pattern.\<close>

definition hum_post :: rx where
  "hum_post = Seq (Star is_space) (Sym (\<lambda>x. x = CHR ''%''))"

definition mtemp_of :: "string \<Rightarrow> string list" where
  "mtemp_of text = findall temp_pre signed_tok Eps text"

definition mhum_of :: "string \<Rightarrow> string list" where
  "mhum_of text = findall Eps unsigned_tok hum_post text"

definition nums_of :: "string \<Rightarrow> string list" where
  "nums_of text = findall Eps signed_tok Eps text"

text \<open>
  \<open>float(tok)\<close> on decimal literals \<open>-?D+(.D+)?\<close>, every other string a ValueError.
  Python's \<open>float\<close> accepts more (exponents, \<open>inf\<close>, surrounding blanks), but
  \<open>_parse_numbers\<close> only passes tokens of the shape above (lemma
  \<open>py_float_signed_tok\<close> below). The value is the exact decimal, a rational; Python
  rounds it to the nearest double, which changes nothing for whole numbers.
\<close>

definition digit_val :: "char \<Rightarrow> nat" where
  "digit_val c = (case map_of (zip ''0123456789'' [0, 1, 2, 3, 4, 5, 6, 7, 8, 9]) c of
                    Some v \<Rightarrow> v | None \<Rightarrow> 0)"

definition digits_val :: "string \<Rightarrow> nat" where
  "digits_val ds = foldl (\<lambda>acc c. 10 * acc + digit_val c) 0 ds"

definition unsigned_float :: "string \<Rightarrow> error + rat" where
  "unsigned_float s =
     (let ip = takeWhile is_digit s; rest = dropWhile is_digit s in
      if ip = [] then Inl ValueError
      else (case rest of
              [] \<Rightarrow> Inr (of_nat (digits_val ip))
            | c # fp \<Rightarrow>
                if c = CHR ''.'' \<and> fp \<noteq> [] \<and> list_all is_digit fp
                then Inr (of_nat (digits_val ip) + of_nat (digits_val fp) / 10 ^ length fp)
                else Inl ValueError))"

definition py_float :: "string \<Rightarrow> error + rat" where
  "py_float s =
     (case s of
        [] \<Rightarrow> Inl ValueError
      | c # cs \<Rightarrow>
          if c = CHR ''-'' then bind_err (unsigned_float cs) (\<lambda>v. Inr (- v))
          else unsigned_float s)"

text \<open>
  \<open>_parse_numbers\<close>. Each \<open>try: ... except: pass\<close> is a \<open>try_assign\<close>; the function
  has no other place where it can raise.
\<close>

definition parse_numbers :: "string \<Rightarrow> error + (rat option \<times> rat option)" where
  "parse_numbers text0 =
     (let text = replace_comma text0;
          mtemp = mtemp_of text;
          temp = (if mtemp \<noteq> [] then try_assign (bind_err (subscript mtemp 0) py_float) None
                  else None);
          mhum = mhum_of text;
          hum = (if mhum \<noteq> [] then try_assign (bind_err (subscript mhum 0) py_float) None
                 else None)
      in if temp = None \<or> hum = None then
           (let nums = nums_of text in
            if nums \<noteq> [] then
              (let temp' = (if temp = None
                            then try_assign (bind_err (subscript nums 0) py_float) temp
                            else temp);
                   hum' = (if 2 \<le> length nums \<and> hum = None
                           then try_assign (bind_err (subscript nums 1) py_float) hum
                           else hum)
               in Inr (temp', hum'))
            else Inr (temp, hum))
         else Inr (temp, hum))"

text \<open>
  The values of \<open>temp\<close> and \<open>hum\<close> after the two pattern searches, before the
  fallback is considered.
\<close>

definition temp_after_patterns :: "string \<Rightarrow> rat option" where
  "temp_after_patterns text0 =
     (let mtemp = mtemp_of (replace_comma text0)
      in if mtemp \<noteq> [] then try_assign (bind_err (subscript mtemp 0) py_float) None else None)"

definition hum_after_patterns :: "string \<Rightarrow> rat option" where
  "hum_after_patterns text0 =
     (let mhum = mhum_of (replace_comma text0)
      in if mhum \<noteq> [] then try_assign (bind_err (subscript mhum 0) py_float) None else None)"

text \<open>
  The conditions under which the fallback runs its assignment to \<open>temp\<close>
  (\<open>temp = float(nums[0])\<close>) and its assignment to \<open>hum\<close> (\<open>hum = float(nums[1])\<close>).
\<close>

definition fallback_sets_temp :: "string \<Rightarrow> bool" where
  "fallback_sets_temp text0 =
     (let temp = temp_after_patterns text0;
          hum = hum_after_patterns text0;
          nums = nums_of (replace_comma text0)
      in (temp = None \<or> hum = None) \<and> nums \<noteq> [] \<and> temp = None)"

definition fallback_sets_hum :: "string \<Rightarrow> bool" where
  "fallback_sets_hum text0 =
     (let temp = temp_after_patterns text0;
          hum = hum_after_patterns text0;
          nums = nums_of (replace_comma text0)
      in (temp = None \<or> hum = None) \<and> nums \<noteq> [] \<and> 2 \<le> length nums \<and> hum = None)"

text \<open>
  The words a pattern matches, as a set: the reference against which the backtracking
  matcher \<open>ms\<close> is checked.
\<close>

fun lang :: "rx \<Rightarrow> string set" where
  "lang Eps = {[]}"
| "lang (Sym p) = {[c] | c. p c}"
| "lang (Seq a b) = {u @ v | u v. u \<in> lang a \<and> v \<in> lang b}"
| "lang (Alt a b) = lang a \<union> lang b"
| "lang (Opt a) = insert [] (lang a)"
| "lang (Star p) = {w. list_all p w}"

text \<open>
  The humidity number in words: one or two digits, then nothing or a period and one or
  two digits.
\<close>

definition is_unsigned_number :: "string \<Rightarrow> bool" where
  "is_unsigned_number tok =
     (let ip = takeWhile is_digit tok; rest = dropWhile is_digit tok in
      1 \<le> length ip \<and> length ip \<le> 2 \<and>
      (case rest of
         [] \<Rightarrow> True
       | c # fp \<Rightarrow> c = CHR ''.'' \<and> 1 \<le> length fp \<and> length fp \<le> 2 \<and> list_all is_digit fp))"

text \<open>The numeric token in words: an optional minus sign, then such a number.\<close>

definition is_signed_number :: "string \<Rightarrow> bool" where
  "is_signed_number tok =
     (case tok of
        [] \<Rightarrow> False
      | c # u \<Rightarrow> if c = CHR ''-'' then is_unsigned_number u else is_unsigned_number tok)"

text \<open>
  An occurrence of the humidity pattern at the start of \<open>s\<close> with the number \<open>tok\<close>:
  the number, white space (possibly none), a percent sign.
\<close>

definition hum_occurrence :: "string \<Rightarrow> string \<Rightarrow> bool" where
  "hum_occurrence s tok \<longleftrightarrow>
     is_unsigned_number tok \<and>
     (\<exists>ws post. list_all is_space ws \<and> s = tok @ ws @ ''%'' @ post)"

text \<open>
  The humidity search read strictly, with the percent sign directly after the number:
  the pattern \<open>(\d{1,2}(?:\.\d{1,2})?)%\<close>. The source's pattern has \<open>\s*\<close> between them.
\<close>

definition mhum_strict_of :: "string \<Rightarrow> string list" where
  "mhum_strict_of text = findall Eps unsigned_tok (Sym (\<lambda>x. x = CHR ''%'')) text"

section \<open>The Reading Recognizer\<close>

text \<open>
  An image object: its size, the colours of its pixels as RGB triples, and its
  \<open>_getexif\<close> attribute. The attribute is \<open>None\<close> when the object has no such
  method, and otherwise holds what the call returns: a dictionary of tag numbers in
  iteration order, or None.
\<close>

datatype exif_value = ExifBytes string | ExifOther string

record image =
  img_width :: nat
  img_height :: nat
  pixels :: "(nat \<times> nat \<times> nat) list"
  getexif_attr :: "(nat \<times> exif_value) list option option"

text \<open>
  \<open>img.convert("RGB")\<close>: a new object of the base image class with the same size and
  colours. The base class has no \<open>_getexif\<close> method; only the objects that
  \<open>Image.open\<close> makes for some file formats have one.
\<close>

definition convert_rgb :: "image \<Rightarrow> image" where
  "convert_rgb img = img\<lparr>getexif_attr := None\<rparr>"

text \<open>
  The recognition backend: \<open>convert("L")\<close> of the imaging library and
  \<open>pytesseract.image_to_string\<close>, which may raise.
\<close>

record backend =
  to_gray :: "(nat \<times> nat \<times> nat) list \<Rightarrow> nat list"
  image_to_string :: "nat list \<Rightarrow> error + string"

text \<open>The module sets \<open>OCR_AVAILABLE = False\<close> on both paths of its import guard.\<close>

definition OCR_AVAILABLE :: bool where
  "OCR_AVAILABLE = False"

definition run_ocr_with :: "bool \<Rightarrow> backend \<Rightarrow> image \<Rightarrow> error + (rat option \<times> rat option)" where
  "run_ocr_with available be img =
     (if \<not> available then Inr (None, None)
      else
        (let gray = to_gray be (pixels img);
             bw = map (\<lambda>x. if 150 < x then 255 else 0) gray
         in case image_to_string be bw of
              Inl e \<Rightarrow> Inr (None, None)
            | Inr text \<Rightarrow> parse_numbers text))"

definition run_ocr :: "backend \<Rightarrow> image \<Rightarrow> error + (rat option \<times> rat option)" where
  "run_ocr be img = run_ocr_with OCR_AVAILABLE be img"

section \<open>The Metadata Extractor\<close>

definition digit_char :: "nat \<Rightarrow> char" where
  "digit_char d = ''0123456789'' ! (d mod 10)"

fun str_nat :: "nat \<Rightarrow> string" where
  "str_nat n = (if n < 10 then [digit_char n] else str_nat (n div 10) @ [digit_char (n mod 10)])"

text \<open>\<open>res[k] = v\<close> on a dictionary kept in insertion order.\<close>

fun dict_set :: "('k \<times> 'v) list \<Rightarrow> 'k \<Rightarrow> 'v \<Rightarrow> ('k \<times> 'v) list" where
  "dict_set [] k v = [(k, v)]"
| "dict_set ((k', v') # ps) k v =
     (if k' = k then (k', v) # ps else (k', v') # dict_set ps k v)"

text \<open>
  \<open>_exif_to_dict\<close>. \<open>tags\<close> is the table \<open>ExifTags.TAGS\<close> and \<open>decode\<close> is
  \<open>bytes.decode(errors="ignore")\<close>; an \<open>ExifOther\<close> value carries its \<open>str\<close>.
\<close>

definition exif_to_dict ::
  "(nat \<rightharpoonup> string) \<Rightarrow> (string \<Rightarrow> string) \<Rightarrow> image \<Rightarrow> (string \<times> string) list" where
  "exif_to_dict tags decode img =
     (case (case getexif_attr img of None \<Rightarrow> None | Some r \<Rightarrow> r) of
        None \<Rightarrow> []
      | Some exif \<Rightarrow>
          if exif = [] then []
          else foldl (\<lambda>res (k, v).
                        dict_set res
                          (case tags k of Some name \<Rightarrow> name | None \<Rightarrow> str_nat k)
                          (case v of ExifBytes b \<Rightarrow> decode b | ExifOther r \<Rightarrow> r))
                     [] exif)"

text \<open>
  \<open>exif.get("Model") or exif.get("Make") or ""\<close>: \<open>or\<close> passes over None and over
  the empty string.
\<close>

definition device_model_of :: "(string \<times> string) list \<Rightarrow> string" where
  "device_model_of exif =
     (case map_of exif ''Model'' of
        Some m \<Rightarrow>
          if m \<noteq> [] then m
          else (case map_of exif ''Make'' of Some k \<Rightarrow> k | None \<Rightarrow> [])
      | None \<Rightarrow> (case map_of exif ''Make'' of Some k \<Rightarrow> k | None \<Rightarrow> []))"


section \<open>The Content Store\<close>

record datetime =
  year :: nat
  month :: nat
  day :: nat
  hour :: nat
  minute :: nat
  second :: nat
  microsecond :: nat
  utcoffset :: int

definition pad2 :: "nat \<Rightarrow> string" where
  "pad2 n = [digit_char (n div 10), digit_char n]"

definition pad4 :: "nat \<Rightarrow> string" where
  "pad4 n = [digit_char (n div 1000), digit_char (n div 100), digit_char (n div 10), digit_char n]"

definition pad6 :: "nat \<Rightarrow> string" where
  "pad6 n = pad2 (n div 10000) @ pad4 n"

text \<open>
  The values \<open>datetime.now\<close> can give: years of four digits, the fields in their
  calendar ranges, the offset in minutes.
\<close>

definition valid_datetime :: "datetime \<Rightarrow> bool" where
  "valid_datetime dt \<longleftrightarrow>
     1000 \<le> year dt \<and> year dt \<le> 9999 \<and> 1 \<le> month dt \<and> month dt \<le> 12 \<and>
     1 \<le> day dt \<and> day dt \<le> 31 \<and> hour dt < 24 \<and> minute dt < 60 \<and> second dt < 60 \<and>
     microsecond dt < 1000000 \<and> \<bar>utcoffset dt\<bar> < 1440"

text \<open>\<open>now.strftime("%Y%m%d_%H%M%S")\<close>\<close>

definition strftime :: "datetime \<Rightarrow> string" where
  "strftime dt =
     pad4 (year dt) @ pad2 (month dt) @ pad2 (day dt) @ ''_'' @
     pad2 (hour dt) @ pad2 (minute dt) @ pad2 (second dt)"

text \<open>\<open>now.isoformat()\<close> of a timezone-aware value\<close>

definition isoformat :: "datetime \<Rightarrow> string" where
  "isoformat dt =
     pad4 (year dt) @ ''-'' @ pad2 (month dt) @ ''-'' @ pad2 (day dt) @ ''T'' @
     pad2 (hour dt) @ '':'' @ pad2 (minute dt) @ '':'' @ pad2 (second dt) @
     (if microsecond dt = 0 then [] else ''.'' @ pad6 (microsecond dt)) @
     (if utcoffset dt < 0 then ''-'' else ''+'') @
     pad2 (nat \<bar>utcoffset dt\<bar> div 60) @ '':'' @ pad2 (nat \<bar>utcoffset dt\<bar> mod 60)"

text \<open>\<open>f"{ts}_{sha[:8]}.jpg"\<close>\<close>

definition derive_fname :: "datetime \<Rightarrow> string \<Rightarrow> string" where
  "derive_fname dt sha = strftime dt @ ''_'' @ take 8 sha @ ''.jpg''"

section \<open>The Record Store and the upload handler\<close>

record photo_row =
  photo_id :: nat
  taken_at :: string
  filename :: string
  sha256 :: string
  width :: nat
  height :: nat
  exif_json :: "string option"
  ocr_temp_c :: "rat option"
  ocr_humidity :: "rat option"
  device_model :: string

text \<open>
  What the handlers change: the files of the upload directory, the rows of \<open>photos\<close> in
  rowid order, and the largest identifier given out so far (AUTOINCREMENT).
\<close>

record world =
  files :: "string \<rightharpoonup> image"
  photos :: "photo_row list"
  last_id :: nat

record request =
  content_type :: "string option"
  body :: "nat list"

text \<open>
  The libraries the upload handler calls: the SHA-256 hex digest, the clock,
  \<open>Image.open(io.BytesIO(raw))\<close>, which raises on bytes that are no image, the tag
  table, the byte decoder, \<open>str\<close> of a dictionary, and the recognition backend.
\<close>

record env =
  sha256_hex :: "nat list \<Rightarrow> string"
  now :: datetime
  image_open :: "nat list \<Rightarrow> error + image"
  exif_tags :: "nat \<rightharpoonup> string"
  bytes_decode :: "string \<Rightarrow> string"
  dict_str :: "(string \<times> string) list \<Rightarrow> string"
  ocr_backend :: backend

datatype response = RedirectResponse string nat

definition startswith :: "string \<Rightarrow> string \<Rightarrow> bool" where
  "startswith s p = (take (length p) s = p)"

text \<open>
  \<open>upload_photo\<close>. A request without a content type has \<open>content_type = None\<close>, and
  \<open>None.startswith\<close> raises AttributeError. Saving the file and inserting the row are
  taken to succeed.
\<close>

definition upload_photo :: "env \<Rightarrow> request \<Rightarrow> world \<Rightarrow> (error + response) \<times> world" where
  "upload_photo e req w =
     (case content_type req of
        None \<Rightarrow> (Inl AttributeError, w)
      | Some ct \<Rightarrow>
          if \<not> startswith ct ''image/'' then (Inl (HTTPException 400 ''Envie uma imagem''), w)
          else
            (let raw = body req;
                 sha = sha256_hex e raw;
                 fname = derive_fname (now e) sha
             in case image_open e raw of
                  Inl err \<Rightarrow> (Inl err, w)
                | Inr opened \<Rightarrow>
                    (let img = convert_rgb opened;
                         exif = exif_to_dict (exif_tags e) (bytes_decode e) img;
                         dm = device_model_of exif
                     in case run_ocr (ocr_backend e) img of
                          Inl err \<Rightarrow> (Inl err, w)
                        | Inr (ocr_temp, ocr_hum) \<Rightarrow>
                            (let w1 = w\<lparr>files := (files w)(fname \<mapsto> img)\<rparr>;
                                 row = \<lparr>photo_id = Suc (last_id w1),
                                        taken_at = isoformat (now e),
                                        filename = fname,
                                        sha256 = sha,
                                        width = img_width img,
                                        height = img_height img,
                                        exif_json = (if exif \<noteq> [] then Some (dict_str e exif)
                                                     else None),
                                        ocr_temp_c = ocr_temp,
                                        ocr_humidity = ocr_hum,
                                        device_model = dm\<rparr>;
                                 w2 = w1\<lparr>photos := photos w1 @ [row],
                                         last_id := Suc (last_id w1)\<rparr>
                             in (Inr (RedirectResponse ''/'' 303), w2)))))"

text \<open>
  \<open>SELECT * FROM photos ORDER BY taken_at DESC LIMIT 20\<close>. The query has the single
  sort key \<open>taken_at\<close>, which is TEXT and compares as a string; how rows with equal
  \<open>taken_at\<close> follow each other is left to the database. \<open>ORDER BY\<close> gives an
  arrangement of all the rows in which \<open>taken_at\<close> never rises, and \<open>LIMIT 20\<close> keeps
  its first 20 rows.
\<close>

definition order_by_taken_at_desc :: "photo_row list \<Rightarrow> photo_row list \<Rightarrow> bool" where
  "order_by_taken_at_desc rows srt \<longleftrightarrow>
     mset srt = mset rows \<and> sorted_wrt (\<lambda>a b. taken_at b \<le> taken_at a) srt"

definition recent_photos :: "world \<Rightarrow> photo_row list \<Rightarrow> bool" where
  "recent_photos w res \<longleftrightarrow> (\<exists>srt. order_by_taken_at_desc (photos w) srt \<and> res = take 20 srt)"

text \<open>The rows lie in the table with their identifiers rising, none above \<open>last_id\<close>.\<close>

definition store_ok :: "world \<Rightarrow> bool" where
  "store_ok w \<longleftrightarrow>
     sorted_wrt (\<lambda>a b. photo_id a < photo_id b) (photos w) \<and>
     (\<forall>r \<in> set (photos w). photo_id r \<le> last_id w)"

definition empty_world :: world where
  "empty_world = \<lparr>files = Map.empty, photos = [], last_id = 0\<rparr>"

section \<open>Sample values\<close>

text \<open>
  Concrete values on which the theorems below are instantiated. \<open>example_bmp\<close> is a
  BMP file of 58 bytes holding one red pixel, and \<open>example_image\<close> is the object
  \<open>Image.open\<close> makes of it; a BMP object has no \<open>_getexif\<close> method. The sample
  opener knows this one file and refuses every other body, and the sample digest
  function gives the SHA-256 digests of the two sample bodies. The backend converts to
  gray as the imaging library does and its transcription raises.
\<close>

definition example_bmp :: "nat list" where
  "example_bmp =
     [66, 77, 58, 0, 0, 0, 0, 0, 0, 0, 54, 0, 0, 0,
      40, 0, 0, 0, 1, 0, 0, 0, 1, 0, 0, 0, 1, 0, 24, 0, 0, 0, 0, 0, 4, 0, 0, 0,
      19, 11, 0, 0, 19, 11, 0, 0, 0, 0, 0, 0, 0, 0, 0, 0,
      0, 0, 255, 0]"

definition example_image :: image where
  "example_image =
     \<lparr>img_width = 1, img_height = 1, pixels = [(255, 0, 0)], getexif_attr = None\<rparr>"

definition example_backend :: backend where
  "example_backend =
     \<lparr>to_gray = map (\<lambda>(r, g, b). (19595 * r + 38470 * g + 7471 * b + 32768) div 65536),
      image_to_string = (\<lambda>bw. Inl LibraryError)\<rparr>"

definition example_now :: datetime where
  "example_now =
     \<lparr>year = 2024, month = 3, day = 9, hour = 14, minute = 5, second = 7,
      microsecond = 250000, utcoffset = - 180\<rparr>"

definition example_env :: env where
  "example_env =
     \<lparr>sha256_hex =
        (\<lambda>raw. if raw = example_bmp
               then ''f7cbd816abfb19030d23b8de5435d0141443665a81ed5ba12114c70b5f53b610''
               else if raw = [104, 105]
               then ''8f434346648f6b96df89dda901c5176b10a6d83961dd3c1ac88b59b2dc327aa4''
               else []),
      now = example_now,
      image_open = (\<lambda>raw. if raw = example_bmp then Inr example_image else Inl LibraryError),
      exif_tags = [271 \<mapsto> ''Make'', 272 \<mapsto> ''Model''],
      bytes_decode = (\<lambda>b. b),
      dict_str = (\<lambda>d. concat (map (\<lambda>(k, v). k @ '':'' @ v @ '';'') d)),
      ocr_backend = example_backend\<rparr>"

definition example_row :: "nat \<Rightarrow> string \<Rightarrow> photo_row" where
  "example_row i t =
     \<lparr>photo_id = i, taken_at = t, filename = ''f.jpg'', sha256 = ''00'', width = 1, height = 1,
      exif_json = None, ocr_temp_c = None, ocr_humidity = None, device_model = ''''\<rparr>"

definition example_world :: world where
  "example_world =
     \<lparr>files = Map.empty,
      photos = [example_row 1 ''2024-03-09T14:05:07-03:00'',
                example_row 2 ''2024-03-10T08:00:00-03:00'',
                example_row 3 ''2024-03-09T14:05:07-03:00''],
      last_id = 3\<rparr>"

text \<open>
  A table of 22 rows in rowid order: rows 1 to 3 share one \<open>taken_at\<close>, rows 4 to 21
  a later one, and row 22 is the latest.
\<close>

definition example_stamp :: "nat \<Rightarrow> string" where
  "example_stamp i =
     (if i \<le> 3 then ''2024-03-09T14:05:07-03:00''
      else if i \<le> 21 then ''2024-03-10T08:00:00-03:00''
      else ''2024-03-11T09:30:00-03:00'')"

definition example_table :: "photo_row list" where
  "example_table =
     map (\<lambda>i. example_row i (example_stamp i))
       [1, 2, 3, 4, 5, 6, 7, 8, 9, 10, 11, 12, 13, 14, 15, 16, 17, 18, 19, 20, 21, 22]"

definition example_full_world :: world where
  "example_full_world = \<lparr>files = Map.empty, photos = example_table, last_id = 22\<rparr>"

section \<open>The matcher against the language of a pattern\<close>

lemma ms_Star: "set (ms (Star p) s) = {t. \<exists>w. list_all p w \<and> s = w @ t}"
proof (induction s)
  case Nil
  then show ?case by auto
next
  case (Cons c cs)
  note IH = Cons.IH
  show ?case
  proof (rule set_eqI)
    fix t
    show "t \<in> set (ms (Star p) (c # cs)) \<longleftrightarrow> t \<in> {t. \<exists>w. list_all p w \<and> c # cs = w @ t}"
    proof
      assume "t \<in> set (ms (Star p) (c # cs))"
      then consider "p c" "t \<in> set (ms (Star p) cs)" | "t = c # cs"
        by (auto split: if_splits)
      then show "t \<in> {t. \<exists>w. list_all p w \<and> c # cs = w @ t}"
      proof cases
        case 1
        then obtain w where "list_all p w" "cs = w @ t" using IH by auto
        with 1 have "list_all p (c # w) \<and> c # cs = (c # w) @ t" by simp
        then show ?thesis by blast
      next
        case 2
        then have "list_all p [] \<and> c # cs = [] @ t" by simp
        then show ?thesis by blast
      qed
    next
      assume "t \<in> {t. \<exists>w. list_all p w \<and> c # cs = w @ t}"
      then obtain w where w: "list_all p w" "c # cs = w @ t" by auto
      show "t \<in> set (ms (Star p) (c # cs))"
      proof (cases w)
        case Nil
        with w have "t = c # cs" by simp
        then show ?thesis by simp
      next
        case (Cons d ds)
        with w have "p c" "list_all p ds" "cs = ds @ t" by auto
        then have "t \<in> set (ms (Star p) cs)" using IH by auto
        with \<open>p c\<close> show ?thesis by simp
      qed
    qed
  qed
qed

lemma ms_set: "set (ms r s) = {t. \<exists>w \<in> lang r. s = w @ t}"
proof (induction r arbitrary: s)
  case Eps
  then show ?case by auto
next
  case (Sym p)
  then show ?case by (cases s) auto
next
  case (Seq a b)
  show ?case
  proof (rule set_eqI)
    fix t
    have "t \<in> set (ms (Seq a b) s) \<longleftrightarrow> (\<exists>m \<in> set (ms a s). t \<in> set (ms b m))"
      by auto
    also have "\<dots> \<longleftrightarrow> (\<exists>u \<in> lang a. \<exists>v \<in> lang b. s = u @ v @ t)"
      using Seq.IH by auto
    also have "\<dots> \<longleftrightarrow> (\<exists>w \<in> lang (Seq a b). s = w @ t)"
      by fastforce
    finally show "t \<in> set (ms (Seq a b) s) \<longleftrightarrow> t \<in> {t. \<exists>w \<in> lang (Seq a b). s = w @ t}"
      by simp
  qed
next
  case (Alt a b)
  then show ?case by auto
next
  case (Opt a)
  then show ?case by auto
next
  case (Star p)
  then show ?case using ms_Star by simp
qed

lemma in_candidates:
  "(g, rest) \<in> set (candidates pre grp post s) \<longleftrightarrow>
   (\<exists>s1 \<in> set (ms pre s). \<exists>s2 \<in> set (ms grp s1).
      rest \<in> set (ms post s2) \<and> g = take (length s1 - length s2) s1)"
  unfolding candidates_def by auto

lemma candidates_iff:
  "(g, rest) \<in> set (candidates pre grp post s) \<longleftrightarrow>
   (\<exists>u w. u \<in> lang pre \<and> g \<in> lang grp \<and> w \<in> lang post \<and> s = u @ g @ w @ rest)"
proof
  assume "(g, rest) \<in> set (candidates pre grp post s)"
  then obtain s1 s2 where s1: "s1 \<in> set (ms pre s)" and s2: "s2 \<in> set (ms grp s1)"
    and r: "rest \<in> set (ms post s2)" and g: "g = take (length s1 - length s2) s1"
    unfolding in_candidates by blast
  from s1 obtain u where u: "u \<in> lang pre" "s = u @ s1" unfolding ms_set by auto
  from s2 obtain v where v: "v \<in> lang grp" "s1 = v @ s2" unfolding ms_set by auto
  from r obtain w where w: "w \<in> lang post" "s2 = w @ rest" unfolding ms_set by auto
  from g v have "g = v" by simp
  with u v w show "\<exists>u w. u \<in> lang pre \<and> g \<in> lang grp \<and> w \<in> lang post \<and> s = u @ g @ w @ rest"
    by auto
next
  assume "\<exists>u w. u \<in> lang pre \<and> g \<in> lang grp \<and> w \<in> lang post \<and> s = u @ g @ w @ rest"
  then obtain u w where h: "u \<in> lang pre" "g \<in> lang grp" "w \<in> lang post" "s = u @ g @ w @ rest"
    by blast
  from h(1,4) have s1: "g @ w @ rest \<in> set (ms pre s)" unfolding ms_set by auto
  from h(2) have s2: "w @ rest \<in> set (ms grp (g @ w @ rest))" unfolding ms_set by auto
  from h(3) have s3: "rest \<in> set (ms post (w @ rest))" unfolding ms_set by auto
  have "g = take (length (g @ w @ rest) - length (w @ rest)) (g @ w @ rest)" by simp
  with s1 s2 s3 show "(g, rest) \<in> set (candidates pre grp post s)"
    unfolding in_candidates by blast
qed

lemma match_at_Some:
  assumes "match_at pre grp post s = Some (g, rest)"
  shows "\<exists>u w. u \<in> lang pre \<and> g \<in> lang grp \<and> w \<in> lang post \<and> s = u @ g @ w @ rest"
proof -
  from assms have "(g, rest) \<in> set (candidates pre grp post s)"
    by (auto simp: match_at_def split: list.splits)
  then show ?thesis unfolding candidates_iff .
qed

lemma match_at_None:
  assumes "match_at pre grp post s = None"
    and "u \<in> lang pre" and "g \<in> lang grp" and "w \<in> lang post"
  shows "s \<noteq> u @ g @ w @ rest"
proof
  assume "s = u @ g @ w @ rest"
  with assms(2-4) have "(g, rest) \<in> set (candidates pre grp post s)"
    unfolding candidates_iff by blast
  moreover from assms(1) have "candidates pre grp post s = []"
    by (simp add: match_at_def split: list.splits)
  ultimately show False by simp
qed

lemma findall_first:
  "findall pre grp post s = g # gs \<Longrightarrow>
   \<exists>p q rest. s = p @ q \<and> match_at pre grp post q = Some (g, rest) \<and>
     (\<forall>k<length p. match_at pre grp post (drop k s) = None)"
proof (induction s)
  case Nil
  then have "match_at pre grp post [] = Some (g, snd (the (match_at pre grp post [])))"
    by (auto split: option.splits)
  then show ?case by auto
next
  case (Cons c cs)
  show ?case
  proof (cases "match_at pre grp post (c # cs)")
    case None
    with Cons.prems have "findall pre grp post cs = g # gs" by simp
    from Cons.IH [OF this] obtain p q rest where
      h: "cs = p @ q" "match_at pre grp post q = Some (g, rest)"
         "\<forall>k<length p. match_at pre grp post (drop k cs) = None" by blast
    have "\<forall>k<length (c # p). match_at pre grp post (drop k (c # cs)) = None"
    proof (intro allI impI)
      fix k assume "k < length (c # p)"
      then show "match_at pre grp post (drop k (c # cs)) = None"
        using None h(3) by (cases k) auto
    qed
    with h(1,2) have "c # cs = (c # p) @ q \<and> match_at pre grp post q = Some (g, rest) \<and>
        (\<forall>k<length (c # p). match_at pre grp post (drop k (c # cs)) = None)" by simp
    then show ?thesis by blast
  next
    case (Some a)
    obtain g' rest where a: "a = (g', rest)" by (cases a)
    with Some Cons.prems have "g' = g" by simp
    with Some a have "c # cs = [] @ (c # cs) \<and> match_at pre grp post (c # cs) = Some (g, rest) \<and>
        (\<forall>k<length ([]::string). match_at pre grp post (drop k (c # cs)) = None)" by simp
    then show ?thesis by blast
  qed
qed

lemma findall_nonempty:
  "match_at pre grp post (drop k s) \<noteq> None \<Longrightarrow> findall pre grp post s \<noteq> []"
proof (induction s arbitrary: k)
  case Nil
  then show ?case by (auto split: option.splits)
next
  case (Cons c cs)
  show ?case
  proof (cases "match_at pre grp post (c # cs)")
    case None
    with Cons.prems obtain k' where "k = Suc k'" by (cases k) auto
    with Cons.prems have "match_at pre grp post (drop k' cs) \<noteq> None" by simp
    from Cons.IH [OF this] None show ?thesis by simp
  next
    case (Some a)
    then show ?thesis by (cases a) simp
  qed
qed

lemma findall_in_lang: "g \<in> set (findall pre grp post s) \<Longrightarrow> g \<in> lang grp"
proof (induction pre grp post s rule: findall.induct)
  case (1 pre grp post)
  then obtain rest where "match_at pre grp post [] = Some (g, rest)"
    by (cases "match_at pre grp post []") auto
  from match_at_Some [OF this] show ?case by blast
next
  case (2 pre grp post c cs)
  show ?case
  proof (cases "match_at pre grp post (c # cs)")
    case None
    with 2 show ?thesis by simp
  next
    case (Some a)
    obtain g' rest where a: "a = (g', rest)" by (cases a)
    from match_at_Some Some a have g': "g' \<in> lang grp" by blast
    from "2.prems" Some a consider "g = g'"
      | "length rest < length (c # cs)" "g \<in> set (findall pre grp post rest)"
      | "\<not> length rest < length (c # cs)" "g \<in> set (findall pre grp post cs)"
      by (auto split: if_splits)
    then show ?thesis
    proof cases
      case 1 with g' show ?thesis by simp
    next
      case 2 with "2.IH"(2) [OF Some] a show ?thesis by simp
    next
      case 3 with "2.IH"(3) [OF Some] a show ?thesis by simp
    qed
  qed
qed

lemma match_at_consumes:
  assumes "match_at pre grp post s = Some (g, rest)" and "[] \<notin> lang grp"
  shows "length rest < length s"
proof -
  from match_at_Some [OF assms(1)] obtain u w where
    h: "g \<in> lang grp" "s = u @ g @ w @ rest" by blast
  with assms(2) have "g \<noteq> []" by auto
  with h(2) show ?thesis by (cases g) auto
qed

section \<open>The numeric tokens\<close>

lemma not_digit_punct: "\<not> is_digit CHR ''.''" "\<not> is_digit CHR ''-''" "\<not> is_digit CHR ''%''"
  by (simp_all add: is_digit_def)

lemma in_lang_Seq: "w \<in> lang (Seq a b) \<longleftrightarrow> (\<exists>u v. w = u @ v \<and> u \<in> lang a \<and> v \<in> lang b)"
  by auto

lemma in_lang_Sym: "w \<in> lang (Sym p) \<longleftrightarrow> (\<exists>c. w = [c] \<and> p c)"
  by auto

lemma in_lang_Opt: "w \<in> lang (Opt a) \<longleftrightarrow> w = [] \<or> w \<in> lang a"
  by auto

lemma digits12_iff: "w \<in> lang digits12 \<longleftrightarrow> list_all is_digit w \<and> 1 \<le> length w \<and> length w \<le> 2"
proof
  assume "w \<in> lang digits12"
  then obtain u v where "w = u @ v" "u \<in> lang (Sym is_digit)" "v \<in> lang (Opt (Sym is_digit))"
    unfolding digits12_def in_lang_Seq by blast
  then show "list_all is_digit w \<and> 1 \<le> length w \<and> length w \<le> 2"
    unfolding in_lang_Opt in_lang_Sym by auto
next
  assume h: "list_all is_digit w \<and> 1 \<le> length w \<and> length w \<le> 2"
  then obtain a v where w: "w = a # v" by (cases w) auto
  with h have a: "[a] \<in> lang (Sym is_digit)" unfolding in_lang_Sym by simp
  from h w have "v = [] \<or> (\<exists>b. v = [b] \<and> is_digit b)" by (cases v) auto
  then have "v \<in> lang (Opt (Sym is_digit))" unfolding in_lang_Opt in_lang_Sym by simp
  with a have "\<exists>u v'. w = u @ v' \<and> u \<in> lang (Sym is_digit) \<and> v' \<in> lang (Opt (Sym is_digit))"
    using w by (intro exI [of _ "[a]"] exI [of _ v]) simp
  then show "w \<in> lang digits12" unfolding digits12_def in_lang_Seq .
qed

lemma unsigned_tok_iff:
  "w \<in> lang unsigned_tok \<longleftrightarrow>
   (\<exists>ip fp. w = ip @ fp \<and> ip \<in> lang digits12 \<and>
      (fp = [] \<or> (\<exists>ds. ds \<in> lang digits12 \<and> fp = CHR ''.'' # ds)))"
proof -
  have "\<And>fp. fp \<in> lang (Seq (Sym (\<lambda>x. x = CHR ''.'')) digits12) \<longleftrightarrow>
      (\<exists>ds. ds \<in> lang digits12 \<and> fp = CHR ''.'' # ds)"
    unfolding in_lang_Seq in_lang_Sym by auto
  then show ?thesis
    unfolding unsigned_tok_def in_lang_Seq [of w] in_lang_Opt by simp
qed

lemma takeWhile_digits_append:
  "list_all is_digit ip \<Longrightarrow> (fp = [] \<or> \<not> is_digit (hd fp)) \<Longrightarrow>
   takeWhile is_digit (ip @ fp) = ip \<and> dropWhile is_digit (ip @ fp) = fp"
  by (induction ip) (auto simp: neq_Nil_conv takeWhile_eq_Nil_iff dropWhile_eq_self_iff)

lemma unsigned_tok_number: "w \<in> lang unsigned_tok \<longleftrightarrow> is_unsigned_number w"
proof
  assume "w \<in> lang unsigned_tok"
  then obtain ip fp where h: "w = ip @ fp" "ip \<in> lang digits12"
    "fp = [] \<or> (\<exists>ds. ds \<in> lang digits12 \<and> fp = CHR ''.'' # ds)"
    unfolding unsigned_tok_iff by blast
  from h(2) have ip: "list_all is_digit ip" "1 \<le> length ip" "length ip \<le> 2"
    unfolding digits12_iff by auto
  from h(3) have "fp = [] \<or> \<not> is_digit (hd fp)" by (auto simp: not_digit_punct)
  from takeWhile_digits_append [OF ip(1) this] h(1)
  have tw: "takeWhile is_digit w = ip" "dropWhile is_digit w = fp" by auto
  from h(3) show "is_unsigned_number w"
  proof
    assume "fp = []"
    with ip show ?thesis unfolding is_unsigned_number_def Let_def tw by simp
  next
    assume "\<exists>ds. ds \<in> lang digits12 \<and> fp = CHR ''.'' # ds"
    then obtain ds where "fp = CHR ''.'' # ds" "list_all is_digit ds" "1 \<le> length ds" "length ds \<le> 2"
      unfolding digits12_iff by auto
    with ip show ?thesis unfolding is_unsigned_number_def Let_def tw by simp
  qed
next
  assume n: "is_unsigned_number w"
  define ip where "ip = takeWhile is_digit w"
  define fp where "fp = dropWhile is_digit w"
  have w: "w = ip @ fp" by (simp add: ip_def fp_def)
  have "list_all is_digit ip" unfolding ip_def list_all_iff by (auto dest: set_takeWhileD)
  with n have ip: "ip \<in> lang digits12"
    unfolding digits12_iff by (simp add: is_unsigned_number_def ip_def Let_def)
  have "fp = [] \<or> (\<exists>ds. ds \<in> lang digits12 \<and> fp = CHR ''.'' # ds)"
  proof (cases fp)
    case Nil
    then show ?thesis by simp
  next
    case (Cons c ds)
    with n have "c = CHR ''.''" "list_all is_digit ds \<and> 1 \<le> length ds \<and> length ds \<le> 2"
      by (simp_all add: is_unsigned_number_def fp_def [symmetric] Let_def)
    with Cons show ?thesis unfolding digits12_iff by simp
  qed
  with w ip show "w \<in> lang unsigned_tok" unfolding unsigned_tok_iff by blast
qed

lemma signed_tok_iff:
  "w \<in> lang signed_tok \<longleftrightarrow>
   is_unsigned_number w \<or> (\<exists>u. w = CHR ''-'' # u \<and> is_unsigned_number u)"
proof -
  have "w \<in> lang signed_tok \<longleftrightarrow>
      (\<exists>u v. w = u @ v \<and> (u = [] \<or> u = [CHR ''-'']) \<and> v \<in> lang unsigned_tok)"
    unfolding signed_tok_def in_lang_Seq in_lang_Opt in_lang_Sym by auto
  also have "\<dots> \<longleftrightarrow> w \<in> lang unsigned_tok \<or> (\<exists>u. w = CHR ''-'' # u \<and> u \<in> lang unsigned_tok)"
  proof
    assume "\<exists>u v. w = u @ v \<and> (u = [] \<or> u = [CHR ''-'']) \<and> v \<in> lang unsigned_tok"
    then show "w \<in> lang unsigned_tok \<or> (\<exists>u. w = CHR ''-'' # u \<and> u \<in> lang unsigned_tok)"
      by auto
  next
    assume "w \<in> lang unsigned_tok \<or> (\<exists>u. w = CHR ''-'' # u \<and> u \<in> lang unsigned_tok)"
    then show "\<exists>u v. w = u @ v \<and> (u = [] \<or> u = [CHR ''-'']) \<and> v \<in> lang unsigned_tok"
    proof
      assume "w \<in> lang unsigned_tok"
      then have "w = [] @ w \<and> ([] = [] \<or> [] = [CHR ''-'']) \<and> w \<in> lang unsigned_tok" by simp
      then show ?thesis by blast
    next
      assume "\<exists>u. w = CHR ''-'' # u \<and> u \<in> lang unsigned_tok"
      then obtain u where "w = [CHR ''-''] @ u \<and> ([CHR ''-''] = [] \<or> [CHR ''-''] = [CHR ''-'']) \<and> u \<in> lang unsigned_tok"
        by auto
      then show ?thesis by blast
    qed
  qed
  finally show ?thesis unfolding unsigned_tok_number .
qed

lemma unsigned_number_hd:
  assumes "is_unsigned_number w"
  shows "\<exists>d u. w = d # u \<and> is_digit d"
proof (cases w)
  case Nil
  with assms show ?thesis by (simp add: is_unsigned_number_def)
next
  case (Cons d u)
  with assms show ?thesis by (cases "is_digit d") (simp_all add: is_unsigned_number_def)
qed

lemma unsigned_float_ok:
  assumes "is_unsigned_number w"
  shows "\<exists>v. unsigned_float w = Inr v"
proof (cases "dropWhile is_digit w")
  case Nil
  from assms have "takeWhile is_digit w \<noteq> []"
    by (auto simp: is_unsigned_number_def Let_def)
  then show ?thesis unfolding unsigned_float_def Let_def Nil by simp
next
  case (Cons c fp)
  from assms have "c = CHR ''.''" "fp \<noteq> []" "list_all is_digit fp" "takeWhile is_digit w \<noteq> []"
    unfolding is_unsigned_number_def Let_def Cons by auto
  then show ?thesis unfolding unsigned_float_def Let_def Cons by simp
qed

lemma py_float_signed_tok:
  assumes "w \<in> lang signed_tok"
  shows "\<exists>v. py_float w = Inr v"
proof -
  from assms consider "is_unsigned_number w" | u where "w = CHR ''-'' # u" "is_unsigned_number u"
    unfolding signed_tok_iff by blast
  then show ?thesis
  proof cases
    case 1
    from unsigned_number_hd [OF 1] obtain d u where w: "w = d # u" "is_digit d" by blast
    then have "d \<noteq> CHR ''-''" using not_digit_punct by auto
    with w unsigned_float_ok [OF 1] show ?thesis by (simp add: py_float_def)
  next
    case 2
    from unsigned_float_ok [OF 2(2)] obtain v where "unsigned_float u = Inr v" by blast
    with 2(1) show ?thesis by (simp add: py_float_def bind_err_def)
  qed
qed

lemma unsigned_sub_signed: "lang unsigned_tok \<subseteq> lang signed_tok"
  using signed_tok_iff unsigned_tok_number by blast

lemma float_first_token:
  assumes "xs \<noteq> []" and "set xs \<subseteq> lang signed_tok"
  shows "\<exists>v. try_assign (bind_err (subscript xs 0) py_float) cur = Some v"
proof -
  from assms obtain x ys where xs: "xs = x # ys" "x \<in> lang signed_tok" by (cases xs) auto
  from py_float_signed_tok [OF xs(2)] obtain v where "py_float x = Inr v" by blast
  with xs(1) show ?thesis by (simp add: try_assign_def bind_err_def subscript_def)
qed

lemma nil_in_temp_pre: "[] \<in> lang temp_pre"
  unfolding temp_pre_def in_lang_Seq in_lang_Opt by simp

lemma digit_matches_temp:
  assumes "is_digit d"
  shows "match_at temp_pre signed_tok Eps (d # rest) \<noteq> None"
proof
  assume n: "match_at temp_pre signed_tok Eps (d # rest) = None"
  from assms have "is_unsigned_number [d]" by (simp add: is_unsigned_number_def)
  then have "[d] \<in> lang signed_tok" unfolding signed_tok_iff by simp
  from match_at_None [OF n nil_in_temp_pre this, of "[]" rest] show False by simp
qed

lemma digit_mtemp:
  assumes "d \<in> set s" and "is_digit d"
  shows "mtemp_of s \<noteq> []"
proof -
  from assms(1) obtain xs ys where "s = xs @ d # ys" by (auto simp: in_set_conv_decomp)
  then have "drop (length xs) s = d # ys" by simp
  with digit_matches_temp [OF assms(2), of ys]
  have "match_at temp_pre signed_tok Eps (drop (length xs) s) \<noteq> None" by simp
  from findall_nonempty [OF this] show ?thesis by (simp add: mtemp_of_def)
qed

lemma mhum_digit:
  assumes "mhum_of s \<noteq> []"
  shows "\<exists>d \<in> set s. is_digit d"
proof -
  from assms obtain g gs where "findall Eps unsigned_tok hum_post s = g # gs"
    by (cases "mhum_of s") (auto simp: mhum_of_def)
  from findall_first [OF this] obtain p q rest where
    h: "s = p @ q" "match_at Eps unsigned_tok hum_post q = Some (g, rest)" by blast
  from match_at_Some [OF h(2)] obtain u w where
    m: "u \<in> lang Eps" "g \<in> lang unsigned_tok" "q = u @ g @ w @ rest" by blast
  from m(2) unsigned_number_hd obtain d t where "g = d # t" "is_digit d"
    unfolding unsigned_tok_number by blast
  with h(1) m(3) show ?thesis by auto
qed

lemma parse_numbers_hum_needs_temp:
  assumes "parse_numbers text = Inr (t, Some h)"
  shows "t \<noteq> None"
proof -
  define s where "s = replace_comma text"
  define temp where "temp = (if mtemp_of s \<noteq> []
      then try_assign (bind_err (subscript (mtemp_of s) 0) py_float) None else None)"
  define hum where "hum = (if mhum_of s \<noteq> []
      then try_assign (bind_err (subscript (mhum_of s) 0) py_float) None else None)"
  have mt: "set (mtemp_of s) \<subseteq> lang signed_tok"
    unfolding mtemp_of_def using findall_in_lang by blast
  have nm: "set (nums_of s) \<subseteq> lang signed_tok"
    unfolding nums_of_def using findall_in_lang by blast
  show ?thesis
  proof (cases "mhum_of s = []")
    case False
    from mhum_digit [OF this] digit_mtemp have "mtemp_of s \<noteq> []" by blast
    from float_first_token [OF this mt] obtain v where v: "temp = Some v"
      unfolding temp_def using \<open>mtemp_of s \<noteq> []\<close> by auto
    from assms have "t = temp"
      unfolding parse_numbers_def Let_def s_def [symmetric] temp_def [symmetric] hum_def [symmetric]
      using v by (auto split: if_splits)
    with v show ?thesis by simp
  next
    case True
    then have hn: "hum = None" by (simp add: hum_def)
    from assms hn have ne: "nums_of s \<noteq> []"
      unfolding parse_numbers_def Let_def s_def [symmetric] temp_def [symmetric] hum_def [symmetric]
      by (auto split: if_splits)
    from float_first_token [OF ne nm] obtain v where
      v: "try_assign (bind_err (subscript (nums_of s) 0) py_float) temp = Some v" by blast
    from assms hn ne have "t = (if temp = None
        then try_assign (bind_err (subscript (nums_of s) 0) py_float) temp else temp)"
      unfolding parse_numbers_def Let_def s_def [symmetric] temp_def [symmetric] hum_def [symmetric]
      by (auto split: if_splits)
    with v show ?thesis by (auto split: if_splits)
  qed
qed

lemma hum_post_iff: "w \<in> lang hum_post \<longleftrightarrow> (\<exists>ws. list_all is_space ws \<and> w = ws @ ''%'')"
  unfolding hum_post_def in_lang_Seq in_lang_Sym by auto

lemma hum_occurrence_match:
  assumes "hum_occurrence s tok"
  shows "match_at Eps unsigned_tok hum_post s \<noteq> None"
proof
  assume n: "match_at Eps unsigned_tok hum_post s = None"
  from assms obtain ws post where h: "is_unsigned_number tok" "list_all is_space ws"
    "s = tok @ ws @ ''%'' @ post" unfolding hum_occurrence_def by blast
  from h(1) have t: "tok \<in> lang unsigned_tok" unfolding unsigned_tok_number .
  from h(2) have w: "ws @ ''%'' \<in> lang hum_post" unfolding hum_post_iff by blast
  have e: "[] \<in> lang Eps" by simp
  from match_at_None [OF n e t w, of post] h(3) show False by simp
qed

lemma mhum_first:
  assumes "mhum_of s = tok # gs"
  shows "\<exists>pre ws post. s = pre @ tok @ ws @ ''%'' @ post \<and> is_unsigned_number tok \<and>
           list_all is_space ws \<and>
           (\<forall>k<length pre. \<forall>tok'. \<not> hum_occurrence (drop k s) tok')"
proof -
  from assms have "findall Eps unsigned_tok hum_post s = tok # gs" by (simp add: mhum_of_def)
  from findall_first [OF this] obtain p q rest where
    h: "s = p @ q" "match_at Eps unsigned_tok hum_post q = Some (tok, rest)"
       "\<forall>k<length p. match_at Eps unsigned_tok hum_post (drop k s) = None" by blast
  from match_at_Some [OF h(2)] obtain u w where
    m: "u \<in> lang Eps" "tok \<in> lang unsigned_tok" "w \<in> lang hum_post" "q = u @ tok @ w @ rest"
    by blast
  from m(3) obtain ws where ws: "list_all is_space ws" "w = ws @ ''%''"
    unfolding hum_post_iff by blast
  from m(1,4) ws(2) h(1) have s: "s = p @ tok @ ws @ ''%'' @ rest" by simp
  from m(2) have n: "is_unsigned_number tok" unfolding unsigned_tok_number .
  from h(3) hum_occurrence_match
  have "\<forall>k<length p. \<forall>tok'. \<not> hum_occurrence (drop k s) tok'" by blast
  with s n ws(1) show ?thesis by blast
qed

lemma parse_numbers_hum_from_pattern:
  assumes "mhum_of (replace_comma text) = tok # gs"
  shows "\<exists>t v. py_float tok = Inr v \<and> parse_numbers text = Inr (t, Some v)"
proof -
  define s where "s = replace_comma text"
  from assms have mh: "mhum_of s = tok # gs" by (simp add: s_def)
  then have "tok \<in> lang unsigned_tok"
    using findall_in_lang [of tok Eps unsigned_tok hum_post s] by (simp add: mhum_of_def)
  with unsigned_sub_signed have "tok \<in> lang signed_tok" by blast
  from py_float_signed_tok [OF this] obtain v where v: "py_float tok = Inr v" by blast
  with mh have "(if mhum_of s \<noteq> []
      then try_assign (bind_err (subscript (mhum_of s) 0) py_float) None else None) = Some v"
    by (simp add: try_assign_def bind_err_def subscript_def)
  then have "\<exists>t. parse_numbers text = Inr (t, Some v)"
    unfolding parse_numbers_def Let_def s_def [symmetric] by simp
  with v show ?thesis by blast
qed

lemma nums_of_three_digits:
  assumes "is_digit a" "is_digit b" "is_digit c"
  shows "nums_of (a # b # c # rest) = [a, b] # nums_of (c # rest)"
proof -
  from assms have ne: "a \<noteq> CHR ''-''" "b \<noteq> CHR ''.''" "c \<noteq> CHR ''.''" using not_digit_punct by auto
  with assms have "candidates Eps signed_tok Eps (a # b # c # rest) =
      [([a, b], c # rest), ([a], b # c # rest)]"
    by (simp add: candidates_def signed_tok_def unsigned_tok_def digits12_def)
  then have "match_at Eps signed_tok Eps (a # b # c # rest) = Some ([a, b], c # rest)"
    by (simp add: match_at_def)
  then show ?thesis by (simp add: nums_of_def)
qed

lemma nil_not_token: "[] \<notin> lang unsigned_tok" "[] \<notin> lang signed_tok"
  unfolding signed_tok_iff unsigned_tok_number by (simp_all add: is_unsigned_number_def)

lemma findall_token_step:
  assumes "match_at pre grp post (c # cs) = Some (g, rest)" and "[] \<notin> lang grp"
  shows "findall pre grp post (c # cs) = g # findall pre grp post rest"
  using match_at_consumes [OF assms] assms(1) by simp

lemma try_assign_float:
  assumes "try_assign (bind_err (subscript xs i) py_float) None = Some v"
  shows "\<exists>tok \<in> set xs. py_float tok = Inr v"
  using assms
  by (auto simp: try_assign_def bind_err_def subscript_def split: sum.splits if_splits)

lemma parse_numbers_components:
  assumes "parse_numbers text = Inr (t, h)" and "t = Some v \<or> h = Some v"
  shows "\<exists>tok \<in> set (mtemp_of (replace_comma text)) \<union> set (mhum_of (replace_comma text))
                 \<union> set (nums_of (replace_comma text)). py_float tok = Inr v"
proof -
  define s where "s = replace_comma text"
  define temp where "temp = (if mtemp_of s \<noteq> []
      then try_assign (bind_err (subscript (mtemp_of s) 0) py_float) None else None)"
  define hum where "hum = (if mhum_of s \<noteq> []
      then try_assign (bind_err (subscript (mhum_of s) 0) py_float) None else None)"
  have a: "temp = Some x \<Longrightarrow> \<exists>tok \<in> set (mtemp_of s). py_float tok = Inr x" for x
    unfolding temp_def using try_assign_float by (auto split: if_splits)
  have b: "hum = Some x \<Longrightarrow> \<exists>tok \<in> set (mhum_of s). py_float tok = Inr x" for x
    unfolding hum_def using try_assign_float by (auto split: if_splits)
  have c: "temp = None \<Longrightarrow> try_assign (bind_err (subscript (nums_of s) i) py_float) temp = Some x
      \<Longrightarrow> \<exists>tok \<in> set (nums_of s). py_float tok = Inr x" for x i
    using try_assign_float by blast
  have d: "hum = None \<Longrightarrow> try_assign (bind_err (subscript (nums_of s) i) py_float) hum = Some x
      \<Longrightarrow> \<exists>tok \<in> set (nums_of s). py_float tok = Inr x" for x i
    using try_assign_float by blast
  from assms(1) have
    "t = temp \<or> (temp = None \<and> t = try_assign (bind_err (subscript (nums_of s) 0) py_float) temp)"
    "h = hum \<or> (hum = None \<and> h = try_assign (bind_err (subscript (nums_of s) 1) py_float) hum)"
    unfolding parse_numbers_def Let_def s_def [symmetric] temp_def [symmetric] hum_def [symmetric]
    by (auto split: if_splits)
  with assms(2) a b c d show ?thesis unfolding s_def [symmetric] by (metis UnCI)
qed

section \<open>File names\<close>

lemma digit_char_inj: "digit_char a = digit_char b \<longleftrightarrow> a mod 10 = b mod 10"
proof -
  have d: "distinct ''0123456789''" by simp
  have "a mod 10 < length ''0123456789''" "b mod 10 < length ''0123456789''" by simp_all
  from nth_eq_iff_index_eq [OF d this] show ?thesis by (simp add: digit_char_def)
qed

lemma div_mod_10_eq:
  fixes a b :: nat
  assumes "a div 10 = b div 10" "a mod 10 = b mod 10"
  shows "a = b"
proof -
  have "a = 10 * (a div 10) + a mod 10" by simp
  also have "\<dots> = 10 * (b div 10) + b mod 10" using assms by simp
  also have "\<dots> = b" by simp
  finally show ?thesis .
qed

lemma pad2_inj:
  assumes "n < 100" "m < 100"
  shows "pad2 n = pad2 m \<longleftrightarrow> n = m"
proof
  assume "pad2 n = pad2 m"
  then have e: "n div 10 mod 10 = m div 10 mod 10" "n mod 10 = m mod 10"
    by (simp_all add: pad2_def digit_char_inj)
  from assms have "n div 10 < 10" "m div 10 < 10" by simp_all
  with e(1) have "n div 10 = m div 10" by simp
  then show "n = m" using e(2) by (rule div_mod_10_eq)
qed simp

lemma pad4_inj:
  assumes "n < 10000" "m < 10000"
  shows "pad4 n = pad4 m \<longleftrightarrow> n = m"
proof
  assume "pad4 n = pad4 m"
  then have e: "n div 1000 mod 10 = m div 1000 mod 10" "n div 100 mod 10 = m div 100 mod 10"
    "n div 10 mod 10 = m div 10 mod 10" "n mod 10 = m mod 10"
    by (simp_all add: pad4_def digit_char_inj)
  from assms have "n div 1000 < 10" "m div 1000 < 10" by simp_all
  with e(1) have "n div 1000 = m div 1000" by simp
  then have "n div 100 div 10 = m div 100 div 10" by (simp add: div_mult2_eq [symmetric])
  then have "n div 100 = m div 100" using e(2) by (rule div_mod_10_eq)
  then have "n div 10 div 10 = m div 10 div 10" by (simp add: div_mult2_eq [symmetric])
  then have "n div 10 = m div 10" using e(3) by (rule div_mod_10_eq)
  then show "n = m" using e(4) by (rule div_mod_10_eq)
qed simp

lemma length_pads: "length (pad2 n) = 2" "length (pad4 n) = 4"
  by (simp_all add: pad2_def pad4_def)

lemma length_strftime: "length (strftime dt) = 15"
  by (simp add: strftime_def length_pads)

lemma strftime_inj:
  assumes "valid_datetime d1" "valid_datetime d2"
  shows "strftime d1 = strftime d2 \<longleftrightarrow>
    year d1 = year d2 \<and> month d1 = month d2 \<and> day d1 = day d2 \<and>
    hour d1 = hour d2 \<and> minute d1 = minute d2 \<and> second d1 = second d2"
proof -
  from assms have b: "year d1 < 10000" "year d2 < 10000" "month d1 < 100" "month d2 < 100"
    "day d1 < 100" "day d2 < 100" "hour d1 < 100" "hour d2 < 100"
    "minute d1 < 100" "minute d2 < 100" "second d1 < 100" "second d2 < 100"
    by (simp_all add: valid_datetime_def)
  show ?thesis
    unfolding strftime_def
    by (simp add: length_pads pad4_inj [OF b(1,2)] pad2_inj [OF b(3,4)] pad2_inj [OF b(5,6)]
        pad2_inj [OF b(7,8)] pad2_inj [OF b(9,10)] pad2_inj [OF b(11,12)])
qed

lemma derive_fname_eq:
  "derive_fname d1 s1 = derive_fname d2 s2 \<longleftrightarrow>
   strftime d1 = strftime d2 \<and> take 8 s1 = take 8 s2"
  unfolding derive_fname_def by (simp add: length_strftime)

section \<open>The record store, the recognizer and the upload handler\<close>

lemma store_ok_empty: "store_ok empty_world"
  by (simp add: store_ok_def empty_world_def)

lemma run_ocr_none: "run_ocr be img = Inr (None, None)"
  by (simp add: run_ocr_def run_ocr_with_def OCR_AVAILABLE_def)

lemma upload_photo_store_ok:
  assumes "store_ok w"
  shows "store_ok (snd (upload_photo e req w))"
proof -
  have "\<And>x. \<forall>r \<in> set (photos w). photo_id r \<le> last_id w \<Longrightarrow>
      sorted_wrt (\<lambda>a b. photo_id a < photo_id b) (photos w) \<Longrightarrow>
      photo_id x = Suc (last_id w) \<Longrightarrow>
      sorted_wrt (\<lambda>a b. photo_id a < photo_id b) (photos w @ [x])"
    by (auto simp: sorted_wrt_append)
  with assms show ?thesis
    unfolding upload_photo_def store_ok_def
    by (auto simp: Let_def run_ocr_none sorted_wrt_append split: option.splits sum.splits)
qed

lemma parse_numbers_Inr: "\<exists>t h. parse_numbers text = Inr (t, h)"
  by (simp add: parse_numbers_def Let_def)

lemma run_ocr_with_Inr: "\<exists>t h. run_ocr_with av be img = Inr (t, h)"
  using parse_numbers_Inr by (auto simp: run_ocr_with_def Let_def split: sum.splits)



lemma exif_to_dict_empty:
  "getexif_attr img = None \<or> getexif_attr img = Some None \<or> getexif_attr img = Some (Some [])
   \<Longrightarrow> exif_to_dict tags decode img = []"
  by (auto simp: exif_to_dict_def)


lemma upload_photo_succeeds:
  assumes "content_type req = Some ct" and "startswith ct ''image/''"
    and "image_open e (body req) = Inr opened"
  shows "\<exists>w'. upload_photo e req w = (Inr (RedirectResponse ''/'' 303), w')"
  using assms by (simp add: upload_photo_def Let_def run_ocr_none)

lemma signed_tok_number: "w \<in> lang signed_tok \<longleftrightarrow> is_signed_number w"
proof (cases w)
  case Nil
  then show ?thesis
    unfolding signed_tok_iff by (simp add: is_signed_number_def is_unsigned_number_def)
next
  case (Cons c u)
  show ?thesis
  proof (cases "c = CHR ''-''")
    case True
    have "\<not> is_unsigned_number w"
      using unsigned_number_hd [of w] Cons True not_digit_punct by auto
    with Cons True show ?thesis unfolding signed_tok_iff by (simp add: is_signed_number_def)
  next
    case False
    with Cons show ?thesis unfolding signed_tok_iff by (simp add: is_signed_number_def)
  qed
qed

lemma parse_numbers_staged:
  "parse_numbers text0 =
     Inr (if fallback_sets_temp text0
          then try_assign (bind_err (subscript (nums_of (replace_comma text0)) 0) py_float) None
          else temp_after_patterns text0,
          if fallback_sets_hum text0
          then try_assign (bind_err (subscript (nums_of (replace_comma text0)) 1) py_float) None
          else hum_after_patterns text0)"
  by (auto simp: parse_numbers_def Let_def fallback_sets_temp_def fallback_sets_hum_def
      temp_after_patterns_def hum_after_patterns_def)

lemma digit_cases:
  assumes "is_digit a"
  shows "a = CHR ''0'' \<or> a = CHR ''1'' \<or> a = CHR ''2'' \<or> a = CHR ''3'' \<or> a = CHR ''4'' \<or>
         a = CHR ''5'' \<or> a = CHR ''6'' \<or> a = CHR ''7'' \<or> a = CHR ''8'' \<or> a = CHR ''9''"
  using assms by (simp add: is_digit_def)

lemma digit_is_plain:
  assumes "is_digit a"
  shows "lower_ascii a = a" "\<not> is_space a" "a \<noteq> CHR '':''" "a \<noteq> CHR ''=''"
    "a \<noteq> CHR ''-''" "a \<noteq> CHR ''.''" "a \<noteq> CHR ''t''"
proof -
  note d = digit_cases [OF assms]
  from d show "lower_ascii a = a" by (elim disjE) (simp_all add: lower_ascii_def)
  from d show "\<not> is_space a" by (elim disjE) (simp_all add: is_space_def)
  from d show "a \<noteq> CHR '':''" by (elim disjE) simp_all
  from d show "a \<noteq> CHR ''=''" by (elim disjE) simp_all
  from d show "a \<noteq> CHR ''-''" by (elim disjE) simp_all
  from d show "a \<noteq> CHR ''.''" by (elim disjE) simp_all
  from d show "a \<noteq> CHR ''t''" by (elim disjE) simp_all
qed

lemma lit_i_no_digit:
  assumes "u \<in> lang (lit_i s)" and "\<forall>c \<in> set s. \<not> is_digit (lower_ascii c)"
  shows "\<forall>x \<in> set u. \<not> is_digit x"
  using assms
proof (induction s arbitrary: u)
  case Nil
  then show ?case by simp
next
  case (Cons c cs)
  from Cons.prems(1) obtain x v where u: "u = x # v" "lower_ascii x = lower_ascii c"
    "v \<in> lang (lit_i cs)"
    unfolding lit_i.simps in_lang_Seq in_lang_Sym by auto
  from Cons.prems(2) have c: "\<not> is_digit (lower_ascii c)" by simp
  have "\<not> is_digit x"
  proof
    assume "is_digit x"
    then have "lower_ascii x = x" by (rule digit_is_plain)
    with u(2) c \<open>is_digit x\<close> show False by simp
  qed
  moreover from Cons.IH [OF u(3)] Cons.prems(2) have "\<forall>y \<in> set v. \<not> is_digit y" by simp
  ultimately show ?case using u(1) by simp
qed

lemma label_letters: "\<forall>c \<in> set ''temperatura''. \<not> is_digit (lower_ascii c)"
  by (simp add: is_digit_def lower_ascii_def)

lemma lang_seq4:
  assumes "u \<in> lang (Seq A (Seq B (Seq C D)))"
  shows "\<exists>a b c d. u = a @ b @ c @ d \<and> a \<in> lang A \<and> b \<in> lang B \<and> c \<in> lang C \<and> d \<in> lang D"
proof -
  from assms obtain a r1 where 1: "u = a @ r1" "a \<in> lang A" "r1 \<in> lang (Seq B (Seq C D))"
    unfolding in_lang_Seq [of u] by blast
  from 1(3) obtain b r2 where 2: "r1 = b @ r2" "b \<in> lang B" "r2 \<in> lang (Seq C D)"
    unfolding in_lang_Seq [of r1] by blast
  from 2(3) obtain c d where 3: "r2 = c @ d" "c \<in> lang C" "d \<in> lang D"
    unfolding in_lang_Seq [of r2] by blast
  from 1 2 3 show ?thesis by blast
qed

lemma temp_pre_no_digit:
  assumes "u \<in> lang temp_pre"
  shows "\<forall>x \<in> set u. \<not> is_digit x"
proof -
  note shape = assms [unfolded temp_pre_def]
  from lang_seq4 [OF shape] obtain a b c d where u: "u = a @ b @ c @ d"
    and a: "a \<in> lang (Opt (Alt (lit_i ''t'') (Alt (lit_i ''temp'') (lit_i ''temperatura''))))"
    and b: "b \<in> lang (Star is_space)"
    and c: "c \<in> lang (Opt (Sym (\<lambda>x. x = CHR '':'' \<or> x = CHR ''='')))"
    and d: "d \<in> lang (Star is_space)"
    by blast
  have sp: "\<And>w. w \<in> lang (Star is_space) \<Longrightarrow> \<forall>x \<in> set w. \<not> is_digit x"
    using digit_is_plain(2) by (auto simp: list_all_iff)
  from a have "a = [] \<or> a \<in> lang (lit_i ''t'') \<or> a \<in> lang (lit_i ''temp'')
      \<or> a \<in> lang (lit_i ''temperatura'')"
    unfolding in_lang_Opt lang.simps(4) by blast
  then have na: "\<forall>x \<in> set a. \<not> is_digit x"
  proof (elim disjE)
    assume "a = []"
    then show ?thesis by simp
  next
    assume "a \<in> lang (lit_i ''t'')"
    then show ?thesis by (rule lit_i_no_digit) (use label_letters in simp)
  next
    assume "a \<in> lang (lit_i ''temp'')"
    then show ?thesis by (rule lit_i_no_digit) (use label_letters in simp)
  next
    assume "a \<in> lang (lit_i ''temperatura'')"
    then show ?thesis by (rule lit_i_no_digit) (use label_letters in simp)
  qed
  from c have "c = [] \<or> c = '':'' \<or> c = ''=''"
    unfolding in_lang_Opt in_lang_Sym by auto
  then have nc: "\<forall>x \<in> set c. \<not> is_digit x" by (auto simp: is_digit_def)
  from na nc sp [OF b] sp [OF d] show ?thesis unfolding u by auto
qed

lemma digit_matches_num:
  assumes "is_digit d"
  shows "match_at Eps signed_tok Eps (d # rest) \<noteq> None"
proof
  assume n: "match_at Eps signed_tok Eps (d # rest) = None"
  from assms have "is_unsigned_number [d]" by (simp add: is_unsigned_number_def)
  then have g: "[d] \<in> lang signed_tok" unfolding signed_tok_iff by simp
  have e: "[] \<in> lang Eps" by simp
  from match_at_None [OF n e g e, of rest] show False by simp
qed

lemma findall_keeps_digits:
  assumes pre: "\<And>u. u \<in> lang pre \<Longrightarrow> \<forall>x \<in> set u. \<not> is_digit x"
    and post: "\<And>u. u \<in> lang post \<Longrightarrow> \<forall>x \<in> set u. \<not> is_digit x"
    and grp: "[] \<notin> lang grp"
    and hit: "\<And>d rest. is_digit d \<Longrightarrow> match_at pre grp post (d # rest) \<noteq> None"
  shows "filter is_digit (concat (findall pre grp post s)) = filter is_digit s"
proof (induction s rule: length_induct)
  case (1 s)
  show ?case
  proof (cases s)
    case Nil
    have "match_at pre grp post [] = None"
    proof (cases "match_at pre grp post []")
      case (Some a)
      obtain g rest where "a = (g, rest)" by (cases a)
      with Some have m: "match_at pre grp post [] = Some (g, rest)" by simp
      from match_at_consumes [OF m grp] show ?thesis by simp
    qed simp
    with Nil show ?thesis by simp
  next
    case (Cons c cs)
    show ?thesis
    proof (cases "match_at pre grp post (c # cs)")
      case None
      with hit have "\<not> is_digit c" by blast
      moreover from 1 Cons have
        "filter is_digit (concat (findall pre grp post cs)) = filter is_digit cs" by simp
      ultimately show ?thesis using None Cons by simp
    next
      case (Some a)
      obtain g rest where a: "a = (g, rest)" by (cases a)
      with Some have m: "match_at pre grp post (c # cs) = Some (g, rest)" by simp
      from match_at_consumes [OF m grp] have len: "length rest < length (c # cs)" .
      from match_at_Some [OF m] obtain u w where
        h: "u \<in> lang pre" "w \<in> lang post" "c # cs = u @ g @ w @ rest" by blast
      from pre [OF h(1)] post [OF h(2)] have
        "filter is_digit (c # cs) = filter is_digit g @ filter is_digit rest"
        unfolding h(3) by (simp add: filter_empty_conv)
      moreover from 1 len Cons have
        "filter is_digit (concat (findall pre grp post rest)) = filter is_digit rest" by simp
      moreover from m len have "findall pre grp post (c # cs) = g # findall pre grp post rest"
        by simp
      ultimately show ?thesis using Cons by simp
    qed
  qed
qed

lemma eps_no_digit: "u \<in> lang Eps \<Longrightarrow> \<forall>x \<in> set u. \<not> is_digit x"
  by simp

lemma nums_keeps_digits: "filter is_digit (concat (nums_of s)) = filter is_digit s"
  unfolding nums_of_def
  by (rule findall_keeps_digits [OF eps_no_digit eps_no_digit nil_not_token(2) digit_matches_num])

lemma mtemp_keeps_digits: "filter is_digit (concat (mtemp_of s)) = filter is_digit s"
  unfolding mtemp_of_def
  by (rule findall_keeps_digits
      [OF temp_pre_no_digit eps_no_digit nil_not_token(2) digit_matches_temp])

lemma tokens_signed:
  "list_all is_signed_number (nums_of s)" "list_all is_signed_number (mtemp_of s)"
  unfolding list_all_iff nums_of_def mtemp_of_def
  using findall_in_lang signed_tok_number by blast+

lemma mtemp_of_three_digits:
  assumes "is_digit a" "is_digit b" "is_digit c"
  shows "mtemp_of (a # b # c # rest) = [a, b] # mtemp_of (c # rest)"
proof -
  note da = digit_is_plain [OF assms(1)]
  note db = digit_is_plain [OF assms(2)]
  note dc = digit_is_plain [OF assms(3)]
  have t: "lower_ascii CHR ''t'' = CHR ''t''" by (simp add: lower_ascii_def)
  have "ms temp_pre (a # b # c # rest) = [a # b # c # rest]"
    using da by (simp add: temp_pre_def t)
  with assms da db dc have "candidates temp_pre signed_tok Eps (a # b # c # rest) =
      [([a, b], c # rest), ([a], b # c # rest)]"
    by (simp add: candidates_def signed_tok_def unsigned_tok_def digits12_def)
  then have "match_at temp_pre signed_tok Eps (a # b # c # rest) = Some ([a, b], c # rest)"
    by (simp add: match_at_def)
  then show ?thesis by (simp add: mtemp_of_def)
qed

section \<open>The query for the most recent rows\<close>

lemma order_by_exists: "order_by_taken_at_desc rows (rev (sort_key taken_at rows))"
proof -
  have "sorted (map taken_at (sort_key taken_at rows))" by (rule sorted_sort_key)
  then have "sorted_wrt (\<lambda>a b. taken_at a \<le> taken_at b) (sort_key taken_at rows)"
    by (simp add: sorted_map)
  then have "sorted_wrt (\<lambda>a b. taken_at b \<le> taken_at a) (rev (sort_key taken_at rows))"
    by (simp add: sorted_wrt_rev)
  then show ?thesis by (simp add: order_by_taken_at_desc_def)
qed

lemma recent_photos_exists: "\<exists>res. recent_photos w res"
  unfolding recent_photos_def using order_by_exists by blast

lemma recent_photos_props:
  assumes "recent_photos w res"
  shows "length res \<le> 20"
    and "length res = min 20 (length (photos w))"
    and "mset res \<subseteq># mset (photos w)"
    and "sorted_wrt (\<lambda>a b. taken_at b \<le> taken_at a) res"
    and "\<forall>r \<in># mset (photos w) - mset res. \<forall>x \<in> set res. taken_at r \<le> taken_at x"
proof -
  from assms obtain srt where m: "mset srt = mset (photos w)"
    and s: "sorted_wrt (\<lambda>a b. taken_at b \<le> taken_at a) srt" and r: "res = take 20 srt"
    unfolding recent_photos_def order_by_taken_at_desc_def by blast
  from m have len: "length srt = length (photos w)" by (rule mset_eq_length)
  show "length res \<le> 20" using r by simp
  show "length res = min 20 (length (photos w))" using r len by (simp add: min.commute)
  have split: "mset (photos w) = mset res + mset (drop 20 srt)"
    using m r by (metis append_take_drop_id mset_append)
  then show "mset res \<subseteq># mset (photos w)" by simp
  show "sorted_wrt (\<lambda>a b. taken_at b \<le> taken_at a) res"
    using s r by (simp add: sorted_wrt_take)
  from s have "sorted_wrt (\<lambda>a b. taken_at b \<le> taken_at a) (take 20 srt @ drop 20 srt)" by simp
  then have "\<forall>x \<in> set (take 20 srt). \<forall>y \<in> set (drop 20 srt). taken_at y \<le> taken_at x"
    unfolding sorted_wrt_append by blast
  moreover from split have "mset (photos w) - mset res = mset (drop 20 srt)" by simp
  ultimately show "\<forall>r \<in># mset (photos w) - mset res. \<forall>x \<in> set res. taken_at r \<le> taken_at x"
    using r by auto
qed

lemma example_table_sorted: "sorted_wrt (\<lambda>a b. taken_at b \<le> taken_at a) (rev example_table)"
  unfolding sorted_wrt_rev
  by (simp add: example_table_def example_row_def example_stamp_def)

lemma example_full_recent: "recent_photos example_full_world (take 20 (rev example_table))"
proof -
  have "order_by_taken_at_desc example_table (rev example_table)"
    using example_table_sorted by (simp add: order_by_taken_at_desc_def)
  then show ?thesis unfolding recent_photos_def by (auto simp: example_full_world_def)
qed

lemma example_full_ids:
  "map photo_id (take 20 (rev example_table)) =
     [22, 21, 20, 19, 18, 17, 16, 15, 14, 13, 12, 11, 10, 9, 8, 7, 6, 5, 4, 3]"
  by (simp add: example_table_def example_row_def)

lemma example_ties_reversed:
  "recent_photos example_world
     [example_row 2 ''2024-03-10T08:00:00-03:00'',
      example_row 3 ''2024-03-09T14:05:07-03:00'',
      example_row 1 ''2024-03-09T14:05:07-03:00'']"
proof -
  let ?srt = "[example_row 2 ''2024-03-10T08:00:00-03:00'',
      example_row 3 ''2024-03-09T14:05:07-03:00'',
      example_row 1 ''2024-03-09T14:05:07-03:00'']"
  have "order_by_taken_at_desc (photos example_world) ?srt"
    by (simp add: order_by_taken_at_desc_def example_world_def example_row_def)
  moreover have "?srt = take 20 ?srt" by simp
  ultimately show ?thesis unfolding recent_photos_def by blast
qed

section \<open>The claims\<close>

text \<open>
  C1. For every input text the Number Parser returns without raising: its result is
  always \<open>Inr (t, h)\<close>, a pair whose components are each absent or a number, and a
  component that is present is the value \<open>float\<close> gave for one of the tokens the
  three searches found in the text.
\<close>

theorem parse_numbers_never_raises:
  "\<exists>t h. parse_numbers text = Inr (t, h) \<and>
     (\<forall>v. t = Some v \<or> h = Some v \<longrightarrow>
        (\<exists>tok \<in> set (mtemp_of (replace_comma text)) \<union> set (mhum_of (replace_comma text))
                 \<union> set (nums_of (replace_comma text)). py_float tok = Inr v))"
proof -
  obtain t h where p: "parse_numbers text = Inr (t, h)"
    using parse_numbers_Inr by blast
  from parse_numbers_components [OF p] p show ?thesis by blast
qed

theorem parse_numbers_never_raises_witness:
  "parse_numbers ''T = -3,5 40 %'' = Inr (Some (- 7 / 2), Some 40) \<and>
   (\<exists>tok \<in> set (mtemp_of (replace_comma ''T = -3,5 40 %''))
           \<union> set (mhum_of (replace_comma ''T = -3,5 40 %''))
           \<union> set (nums_of (replace_comma ''T = -3,5 40 %'')). py_float tok = Inr 40)"
proof -
  have e: "parse_numbers ''T = -3,5 40 %'' = Inr (Some (- 7 / 2), Some 40)" by code_simp
  from parse_numbers_never_raises [of "''T = -3,5 40 %''"] e show ?thesis by auto
qed

text \<open>
  C2, as the claim states it, fails: in \<open>55 %\<close> the number is followed by a blank, not
  by the percent sign, and the humidity pattern still matches, because the pattern has
  \<open>\s*\<close> between the number and the sign. The strict search finds nothing there.
\<close>

theorem hum_blank_before_percent_counterexample:
  "mhum_of (replace_comma ''55 %'') = [''55''] \<and>
   mhum_strict_of (replace_comma ''55 %'') = [] \<and>
   ''55 %'' ! 2 \<noteq> CHR ''%'' \<and>
   parse_numbers ''55 %'' = Inr (Some 55, Some 55)"
  by code_simp

text \<open>
  C2, amended. When the humidity search finds a match, its first match \<open>tok\<close> is a number
  of one or two digits with at most two decimals that is followed, after white space
  only (possibly none), by a percent sign; no occurrence of that pattern starts further
  left in the text; and the parser returns the value of \<open>tok\<close> as the humidity.
\<close>

theorem hum_pattern_first_occurrence:
  assumes "mhum_of (replace_comma text) = tok # gs"
  shows "\<exists>pre ws post.
           replace_comma text = pre @ tok @ ws @ ''%'' @ post \<and>
           is_unsigned_number tok \<and> list_all is_space ws \<and>
           (\<forall>k<length pre. \<forall>tok'. \<not> hum_occurrence (drop k (replace_comma text)) tok') \<and>
           (\<exists>t v. py_float tok = Inr v \<and> parse_numbers text = Inr (t, Some v))"
  using mhum_first [OF assms] parse_numbers_hum_from_pattern [OF assms] by blast

theorem hum_pattern_first_occurrence_witness:
  "mhum_of (replace_comma ''a 5,5 %'') = [''5.5''] \<and>
   (\<exists>pre ws post.
      replace_comma ''a 5,5 %'' = pre @ ''5.5'' @ ws @ ''%'' @ post \<and>
      is_unsigned_number ''5.5'' \<and> list_all is_space ws \<and>
      (\<forall>k<length pre. \<forall>tok'. \<not> hum_occurrence (drop k (replace_comma ''a 5,5 %'')) tok') \<and>
      (\<exists>t v. py_float ''5.5'' = Inr v \<and> parse_numbers ''a 5,5 %'' = Inr (t, Some v)))"
proof -
  have h: "mhum_of (replace_comma ''a 5,5 %'') = [''5.5'']" by code_simp
  from h hum_pattern_first_occurrence [OF h] show ?thesis by (rule conjI)
qed

text \<open>
  C3, as the claim states it, fails: on \<open>27 55\<close> the positional fallback does not
  assign the temperature. The temperature pattern, whose label is optional, has
  already matched \<open>27\<close>, so \<open>temp\<close> is set before the fallback and the fallback's
  assignment to \<open>temp\<close> is not run.
\<close>

theorem fallback_skips_temperature_counterexample:
  "mtemp_of (replace_comma ''27 55'') = [''27'', ''55''] \<and>
   temp_after_patterns ''27 55'' = Some 27 \<and>
   \<not> fallback_sets_temp ''27 55''"
  by code_simp

text \<open>
  C3, amended. On \<open>27 55\<close> the parser returns temperature 27 and humidity 55. The
  temperature is the first match of the temperature pattern, whose label is optional;
  it is also the first numeric token. The humidity pattern finds nothing, and the
  positional fallback assigns the second numeric token to the humidity and leaves the
  temperature as it is.
\<close>

theorem parse_numbers_27_55:
  "parse_numbers ''27 55'' = Inr (Some 27, Some 55) \<and>
   mtemp_of (replace_comma ''27 55'') = [''27'', ''55''] \<and>
   temp_after_patterns ''27 55'' = Some 27 \<and>
   mhum_of (replace_comma ''27 55'') = [] \<and>
   hum_after_patterns ''27 55'' = None \<and>
   nums_of (replace_comma ''27 55'') = [''27'', ''55''] \<and>
   \<not> fallback_sets_temp ''27 55'' \<and>
   fallback_sets_hum ''27 55''"
  by code_simp

theorem parse_numbers_27_55_witness: "parse_numbers ''27 55'' = Inr (Some 27, Some 55)"
  using parse_numbers_27_55 by (rule conjunct1)

text \<open>
  C4, as the claim states it, fails: two digests that differ after their first eight
  characters give the same file name within one second.
\<close>

theorem fname_same_prefix_counterexample:
  "''9f86d081884c7d659a2feaa0c55ad015a3bf4f1b2b0b822cd15d6c15b0f00a08'' \<noteq>
   ''9f86d0818a3c1f5be0e2f9c7d4b6a5978877665544332211ffeeddccbbaa0099'' \<and>
   derive_fname example_now ''9f86d081884c7d659a2feaa0c55ad015a3bf4f1b2b0b822cd15d6c15b0f00a08'' =
   derive_fname example_now ''9f86d0818a3c1f5be0e2f9c7d4b6a5978877665544332211ffeeddccbbaa0099''"
  by (simp add: derive_fname_def)

text \<open>
  C4, amended. For two clock readings, the derived file names are equal exactly when
  the first eight characters of the digests are equal and the readings agree in year,
  month, day, hour, minute and second; so the names are distinct whenever the
  eight-character prefixes differ or the readings differ at second granularity.
\<close>

theorem fname_distinct:
  assumes "valid_datetime d1" and "valid_datetime d2"
  shows "derive_fname d1 s1 = derive_fname d2 s2 \<longleftrightarrow>
           take 8 s1 = take 8 s2 \<and>
           year d1 = year d2 \<and> month d1 = month d2 \<and> day d1 = day d2 \<and>
           hour d1 = hour d2 \<and> minute d1 = minute d2 \<and> second d1 = second d2"
  unfolding derive_fname_eq strftime_inj [OF assms] by blast

theorem fname_distinct_witness:
  "valid_datetime example_now \<and> valid_datetime (example_now\<lparr>second := 8\<rparr>) \<and>
   derive_fname example_now ''9f86d081884c'' \<noteq>
   derive_fname (example_now\<lparr>second := 8\<rparr>) ''9f86d081884c''"
proof -
  have a: "valid_datetime example_now" by (simp add: valid_datetime_def example_now_def)
  have b: "valid_datetime (example_now\<lparr>second := 8\<rparr>)"
    by (simp add: valid_datetime_def example_now_def)
  have "second example_now \<noteq> second (example_now\<lparr>second := 8\<rparr>)"
    by (simp add: example_now_def)
  with fname_distinct [OF a b, of "''9f86d081884c''" "''9f86d081884c''"] a b
  show ?thesis by blast
qed

text \<open>
  C5, as the claim states it, fails in its last part: the query has the single sort
  key \<open>taken_at\<close>, so a result in which two rows with equal \<open>taken_at\<close> come with the
  larger identifier first is a result of the query. In the table of three rows, rows 1
  and 3 have equal \<open>taken_at\<close>, and row 3 may come before row 1.
\<close>

theorem recent_photos_tie_order_counterexample:
  "store_ok example_world \<and>
   recent_photos example_world
     [example_row 2 ''2024-03-10T08:00:00-03:00'',
      example_row 3 ''2024-03-09T14:05:07-03:00'',
      example_row 1 ''2024-03-09T14:05:07-03:00''] \<and>
   taken_at (example_row 3 ''2024-03-09T14:05:07-03:00'') =
   taken_at (example_row 1 ''2024-03-09T14:05:07-03:00'') \<and>
   \<not> photo_id (example_row 3 ''2024-03-09T14:05:07-03:00'') <
     photo_id (example_row 1 ''2024-03-09T14:05:07-03:00'')"
proof -
  have "store_ok example_world"
    by (simp add: store_ok_def example_world_def example_row_def)
  with example_ties_reversed show ?thesis by (simp add: example_row_def)
qed

text \<open>
  C5, amended. The query for the most recent rows always has a result, and every
  result has at most 20 rows (20, or all the rows when the table has fewer), all of them
  rows of the table, ordered by \<open>taken_at\<close> descending; no row that is left out has a
  larger \<open>taken_at\<close> than a row that is returned. The order among rows with equal
  \<open>taken_at\<close> is not fixed by the query.
\<close>

theorem recent_photos_at_most_20_ordered:
  "(\<exists>res. recent_photos w res) \<and>
   (\<forall>res. recent_photos w res \<longrightarrow>
      length res \<le> 20 \<and>
      length res = min 20 (length (photos w)) \<and>
      mset res \<subseteq># mset (photos w) \<and>
      sorted_wrt (\<lambda>a b. taken_at b \<le> taken_at a) res \<and>
      (\<forall>r \<in># mset (photos w) - mset res. \<forall>x \<in> set res. taken_at r \<le> taken_at x))"
  using recent_photos_exists recent_photos_props by blast

theorem recent_photos_at_most_20_ordered_witness:
  "recent_photos example_full_world (take 20 (rev example_table)) \<and>
   map photo_id (take 20 (rev example_table)) =
     [22, 21, 20, 19, 18, 17, 16, 15, 14, 13, 12, 11, 10, 9, 8, 7, 6, 5, 4, 3] \<and>
   length (take 20 (rev example_table)) = min 20 (length (photos example_full_world)) \<and>
   mset (take 20 (rev example_table)) \<subseteq># mset (photos example_full_world) \<and>
   sorted_wrt (\<lambda>a b. taken_at b \<le> taken_at a) (take 20 (rev example_table))"
proof -
  have h: "recent_photos example_full_world (take 20 (rev example_table))"
    by (rule example_full_recent)
  from recent_photos_at_most_20_ordered [of example_full_world] h example_full_ids
  show ?thesis by blast
qed

text \<open>
  C6. An upload whose declared content type does not start with \<open>image/\<close> is rejected
  with HTTP status 400, and nothing has changed: no file is written and no row is
  inserted.
\<close>

theorem non_image_upload_rejected:
  assumes "content_type req = Some ct" and "\<not> startswith ct ''image/''"
  shows "upload_photo e req w = (Inl (HTTPException 400 ''Envie uma imagem''), w)"
  using assms by (simp add: upload_photo_def)

theorem non_image_upload_rejected_witness:
  "content_type \<lparr>content_type = Some ''text/plain'', body = [104, 105]\<rparr> = Some ''text/plain'' \<and>
   \<not> startswith ''text/plain'' ''image/'' \<and>
   upload_photo example_env \<lparr>content_type = Some ''text/plain'', body = [104, 105]\<rparr> example_world
     = (Inl (HTTPException 400 ''Envie uma imagem''), example_world)"
proof -
  have a: "content_type \<lparr>content_type = Some ''text/plain'', body = [104, 105]\<rparr>
      = Some ''text/plain''" by simp
  have b: "\<not> startswith ''text/plain'' ''image/''" by (simp add: startswith_def)
  from a b non_image_upload_rejected [OF a b] show ?thesis by blast
qed

text \<open>
  C7. The Reading Recognizer never returns an error. When the backend is unavailable,
  or when the transcription raises, it returns the no-reading result; and as the
  module fixes \<open>OCR_AVAILABLE\<close> to False, \<open>run_ocr\<close> returns the no-reading result for
  every image.
\<close>

theorem run_ocr_never_raises:
  "(\<exists>t h. run_ocr_with av be img = Inr (t, h)) \<and>
   (\<not> av \<or> isl (image_to_string be (map (\<lambda>x. if 150 < x then 255 else 0)
                                         (to_gray be (pixels img))))
      \<longrightarrow> run_ocr_with av be img = Inr (None, None)) \<and>
   run_ocr be img = Inr (None, None)"
proof (intro conjI impI)
  show "\<exists>t h. run_ocr_with av be img = Inr (t, h)" by (rule run_ocr_with_Inr)
  show "run_ocr be img = Inr (None, None)" by (rule run_ocr_none)
  assume "\<not> av \<or> isl (image_to_string be (map (\<lambda>x. if 150 < x then 255 else 0)
                                              (to_gray be (pixels img))))"
  then show "run_ocr_with av be img = Inr (None, None)"
    by (auto simp: run_ocr_with_def Let_def split: sum.splits)
qed

theorem run_ocr_never_raises_witness:
  "isl (image_to_string example_backend (map (\<lambda>x. if 150 < x then 255 else 0)
          (to_gray example_backend (pixels example_image)))) \<and>
   run_ocr_with True example_backend example_image = Inr (None, None) \<and>
   run_ocr_with False example_backend example_image = Inr (None, None)"
proof -
  have a: "isl (image_to_string example_backend (map (\<lambda>x. if 150 < x then 255 else 0)
          (to_gray example_backend (pixels example_image))))"
    by (simp add: example_backend_def)
  from run_ocr_never_raises [of True example_backend example_image]
    run_ocr_never_raises [of False example_backend example_image] a
  show ?thesis by blast
qed



text \<open>
  C9. Whenever the parser returns a humidity it also returns a temperature: a text in
  which the humidity pattern matches also matches the temperature pattern, whose label
  is optional, and the fallback sets the temperature from the first numeric token
  before it sets the humidity from the second.
\<close>

theorem humidity_implies_temperature:
  "(mhum_of s \<noteq> [] \<longrightarrow> mtemp_of s \<noteq> []) \<and>
   (parse_numbers text = Inr (t, Some h) \<longrightarrow> t \<noteq> None)"
  using mhum_digit digit_mtemp parse_numbers_hum_needs_temp by blast

theorem humidity_implies_temperature_witness:
  "mhum_of ''61%'' \<noteq> [] \<and> mtemp_of ''61%'' \<noteq> [] \<and>
   parse_numbers ''61%'' = Inr (Some 61, Some 61) \<and> Some (61 :: rat) \<noteq> None"
proof -
  have a: "mhum_of ''61%'' \<noteq> []" by code_simp
  have b: "parse_numbers ''61%'' = Inr (Some 61, Some 61)" by code_simp
  from humidity_implies_temperature [of "''61%''" "''61%''" "Some 61" 61] a b
  show ?thesis by blast
qed

text \<open>
  C10, as the claim states it, fails twice. On \<open>2025\<close> the temperature 20 does not
  come from the positional fallback: the temperature pattern sets it and the fallback's
  assignment to \<open>temp\<close> is not run. And the humidity search does not read a long run
  as successive tokens: on \<open>100%\<close> it finds \<open>00\<close>, the first digit belongs to no match
  of it, and the parser returns temperature 10 and humidity 0.
\<close>

theorem long_digit_run_counterexample:
  "temp_after_patterns ''2025'' = Some 20 \<and>
   \<not> fallback_sets_temp ''2025'' \<and>
   mhum_of (replace_comma ''100%'') = [''00''] \<and>
   parse_numbers ''100%'' = Inr (Some 10, Some 0)"
  by code_simp

text \<open>
  C10, amended. The bound of one or two digits does not reject a longer number but
  cuts it. In the temperature search and in the search for numeric tokens every digit
  of the text lies in a token, in the order of the text, and every token is a number
  of one or two digits with at most two decimals and an optional sign; where three
  digits stand at the place the scan has reached, the first two form one token and the
  scan goes on with the third. So a run of three or more digits is matched as
  successive tokens. The humidity search is not covered by this. On \<open>2025\<close> both
  searches find \<open>20\<close> and \<open>25\<close>, the temperature pattern sets temperature 20, and the
  positional fallback sets humidity 25.
\<close>

theorem long_digit_run_is_cut:
  "filter is_digit (concat (mtemp_of s)) = filter is_digit s \<and>
   list_all is_signed_number (mtemp_of s) \<and>
   filter is_digit (concat (nums_of s)) = filter is_digit s \<and>
   list_all is_signed_number (nums_of s) \<and>
   (is_digit a \<and> is_digit b \<and> is_digit c \<longrightarrow>
      mtemp_of (a # b # c # rest) = [a, b] # mtemp_of (c # rest) \<and>
      nums_of (a # b # c # rest) = [a, b] # nums_of (c # rest)) \<and>
   mtemp_of (replace_comma ''2025'') = [''20'', ''25''] \<and>
   temp_after_patterns ''2025'' = Some 20 \<and>
   \<not> fallback_sets_temp ''2025'' \<and>
   mhum_of (replace_comma ''2025'') = [] \<and>
   nums_of (replace_comma ''2025'') = [''20'', ''25''] \<and>
   fallback_sets_hum ''2025'' \<and>
   parse_numbers ''2025'' = Inr (Some 20, Some 25)"
proof -
  have 1: "is_digit a \<and> is_digit b \<and> is_digit c \<longrightarrow>
      mtemp_of (a # b # c # rest) = [a, b] # mtemp_of (c # rest) \<and>
      nums_of (a # b # c # rest) = [a, b] # nums_of (c # rest)"
    by (simp add: nums_of_three_digits mtemp_of_three_digits)
  have 2: "mtemp_of (replace_comma ''2025'') = [''20'', ''25''] \<and>
      temp_after_patterns ''2025'' = Some 20 \<and> \<not> fallback_sets_temp ''2025''"
    by code_simp
  have 3: "mhum_of (replace_comma ''2025'') = [] \<and>
      nums_of (replace_comma ''2025'') = [''20'', ''25''] \<and> fallback_sets_hum ''2025''"
    by code_simp
  have 4: "parse_numbers ''2025'' = Inr (Some 20, Some 25)" by code_simp
  from 1 2 3 4 mtemp_keeps_digits [of s] nums_keeps_digits [of s] tokens_signed [of s]
  show ?thesis by blast
qed

theorem long_digit_run_is_cut_witness:
  "is_digit CHR ''1'' \<and> is_digit CHR ''9'' \<and> is_digit CHR ''8'' \<and>
   mtemp_of ''1984'' = ''19'' # mtemp_of ''84'' \<and>
   nums_of ''1984'' = ''19'' # nums_of ''84'' \<and>
   filter is_digit (concat (nums_of ''x1984,5y'')) = filter is_digit ''x1984,5y''"
proof -
  have d: "is_digit CHR ''1'' \<and> is_digit CHR ''9'' \<and> is_digit CHR ''8''"
    by (simp add: is_digit_def)
  from long_digit_run_is_cut [of "''x1984,5y''" "CHR ''1''" "CHR ''9''" "CHR ''8''" "''4''"] d
  show ?thesis by simp
qed

end
